theory Spec2Isabelle
  imports Main "HOL-Library.Word"
begin

section \<open>The G1 barrier set (\<^verbatim>\<open>src/hotspot/share/gc/g1/g1BarrierSet.cpp\<close>)\<close>

text \<open>
  A sequential, shallow embedding of \<^verbatim>\<open>G1BarrierSet\<close>: every member function of the
  file becomes a function from the VM state to the VM state (or to a fatal error, where
  the function has an \<^verbatim>\<open>assert\<close>). \<^verbatim>\<open>Thread::current()\<close> is the thread id passed as
  \<open>thr\<close>. Pointers are natural numbers: an \<^verbatim>\<open>oop\<close> is an address with \<^verbatim>\<open>NULL\<close> = 0,
  a \<^verbatim>\<open>jbyte*\<close> into the card table is the address of a card byte, a \<^verbatim>\<open>T*\<close> into an
  object array counts slots of type \<^verbatim>\<open>T\<close>. \<^verbatim>\<open>size_t\<close> counters are natural numbers: the
  loops only count upwards to a bound that is itself a \<^verbatim>\<open>size_t\<close>, so nothing wraps.
  \<^verbatim>\<open>OrderAccess::storeload()\<close> has no effect on a sequential run and is left out. A
  \<^verbatim>\<open>MutexLockerEx\<close> scope takes its lock where it is declared and releases it where the
  scope ends; both events, and every enqueue into a shared queue, are recorded in the
  order in which they happen, so that what is done while a lock is held can be read
  off the state.
  The constructor and the three static entry points (lines 40-75) only forward to the
  functions below and are not modelled.
\<close>

subsection \<open>Data\<close>

type_synonym oop = nat
type_synonym jbyte = "8 word"
type_synonym card_ptr = nat
type_synonym heap_word_ptr = nat
type_synonym thread_id = nat

definition NULL :: oop where
  "NULL = 0"

text \<open>A fatal error of the VM: a failed \<^verbatim>\<open>assert\<close>, with its message.\<close>

datatype vm_error = assert_failed string

text \<open>
  \<^verbatim>\<open>PtrQueue\<close> (the base of \<^verbatim>\<open>SATBMarkQueue\<close> and \<^verbatim>\<open>DirtyCardQueue\<close>): its \<^verbatim>\<open>_active\<close>
  flag and the records of its current buffer, oldest first.
\<close>

record 'a PtrQueue =
  active :: bool
  buf :: "'a list"

text \<open>
  \<^verbatim>\<open>PtrQueueSet\<close> (the base of \<^verbatim>\<open>SATBMarkQueueSet\<close> and \<^verbatim>\<open>DirtyCardQueueSet\<close>): the
  global \<^verbatim>\<open>_all_active\<close> flag read by \<^verbatim>\<open>is_active()\<close>, the shared queue of the
  non-Java threads, the list of completed buffers (oldest first) and the capacity of a
  buffer, a configuration parameter.
\<close>

record 'a PtrQueueSet =
  all_active :: bool
  shared_queue :: "'a PtrQueue"
  completed_buffers :: "'a list list"
  buffer_size :: nat

text \<open>
  A \<^verbatim>\<open>Thread\<close>. Only a \<^verbatim>\<open>JavaThread\<close> has queues of its own; the barrier never looks at
  the queue fields of a thread whose \<^verbatim>\<open>is_Java_thread()\<close> is false.
\<close>

record Thread =
  is_Java_thread :: bool
  satb_mark_queue :: "oop PtrQueue"
  dirty_card_queue :: "card_ptr PtrQueue"

text \<open>
  \<^verbatim>\<open>G1CardTable\<close>. The header that declares it is not part of the sources, so the three
  card values and the address translation \<^verbatim>\<open>byte_for\<close> are parameters of the model: fields
  that no function below ever changes. \<open>byte_map\<close> is the table itself, one \<^verbatim>\<open>jbyte\<close> per
  card address.
\<close>

record G1CardTable =
  g1_young_card_val :: jbyte
  dirty_card_val :: jbyte
  clean_card_val :: jbyte
  byte_for :: "heap_word_ptr \<Rightarrow> card_ptr"
  byte_map :: "card_ptr \<Rightarrow> jbyte"

text \<open>
  The two locks of the file, and the events of the synchronisation trace: a lock is
  taken, a lock is released, a record is enqueued into the shared SATB queue or into the
  shared dirty card queue.
\<close>

datatype mutex = Shared_SATB_Q_lock | Shared_DirtyCardQ_lock

datatype sync_event =
    mutex_locked mutex
  | mutex_unlocked mutex
  | shared_satb_enqueued oop
  | shared_dirty_card_enqueued card_ptr

text \<open>
  The VM state the barrier set works on.
  \<^item> \<open>debug_build\<close>: whether \<^verbatim>\<open>assert\<close> is compiled in. The macro is declared in
    \<^verbatim>\<open>utilities/debug.hpp\<close>, which is not part of the sources; it checks its condition
    in a debug build (\<^verbatim>\<open>ASSERT\<close> defined) and expands to nothing in a product build, so
    the build flavour is a parameter.
  \<^item> \<open>at_safepoint\<close>: \<^verbatim>\<open>SafepointSynchronize::is_at_safepoint()\<close>.
  \<^item> \<open>valid_object\<close>: the addresses at which the heap holds a well-formed object.
  \<^item> \<open>threads\<close>: the \<^verbatim>\<open>Thread\<close> object of every thread id.
  \<^item> \<open>satb_mark_queue_set\<close>: \<^verbatim>\<open>JavaThread::satb_mark_queue_set()\<close>.
  \<^item> \<open>dcqs\<close>: the field \<^verbatim>\<open>_dcqs\<close>, \<^verbatim>\<open>JavaThread::dirty_card_queue_set()\<close>.
  \<^item> \<open>card_table\<close>: the field \<^verbatim>\<open>_card_table\<close>.
  \<^item> \<open>oop_loads\<close>: the addresses read through \<^verbatim>\<open>RawAccess<>::oop_load\<close> so far, in
    order. The field is an observation only: no function reads it.
  \<^item> \<open>sync_trace\<close>: the lock, unlock and shared-queue enqueue events so far, in order.
    An observation as well.
\<close>

record vm =
  debug_build :: bool
  at_safepoint :: bool
  valid_object :: "oop \<Rightarrow> bool"
  threads :: "thread_id \<Rightarrow> Thread"
  satb_mark_queue_set :: "oop PtrQueueSet"
  dcqs :: "card_ptr PtrQueueSet"
  card_table :: G1CardTable
  oop_loads :: "nat list"
  sync_trace :: "sync_event list"

text \<open>
  \<^verbatim>\<open>MemRegion\<close>: a start address and a size, both in heap words.
\<close>

record MemRegion =
  mr_start :: heap_word_ptr
  mr_word_size :: nat

subsection \<open>Collaborators that are not part of the sources\<close>

text \<open>
  Modelled from the spec: \<^verbatim>\<open>oopDesc::is_oop\<close> (\<^verbatim>\<open>oops/oop.inline.hpp\<close> is missing). The
  spec gives the precondition of \<^verbatim>\<open>enqueue\<close> as "reference is non-null and a valid live
  object reference".
\<close>

definition is_oop :: "vm \<Rightarrow> oop \<Rightarrow> bool" where
  "is_oop s obj = (obj \<noteq> NULL \<and> valid_object s obj)"

text \<open>
  Modelled from the spec: \<^verbatim>\<open>PtrQueue::enqueue\<close> (\<^verbatim>\<open>gc/shared/ptrQueue.hpp\<close> is missing).
  The spec: "treat enqueue as append; if full, atomically transfer to a global
  completed-list and start a fresh buffer", and "every enqueue either appends to a
  non-full buffer or triggers a hand-off". A buffer that has room takes the record; a
  full buffer goes to the end of the set's completed list, and the record opens the
  fresh buffer. The spec gives the append no condition on the queue's own \<open>active\<close>
  flag, so there is none here.
\<close>

definition PtrQueue_enqueue ::
  "'a \<Rightarrow> 'a PtrQueue \<times> 'a PtrQueueSet \<Rightarrow> 'a PtrQueue \<times> 'a PtrQueueSet" where
  "PtrQueue_enqueue x p =
     (case p of (q, qs) \<Rightarrow>
        if length (buf q) < buffer_size qs
        then (q\<lparr>buf := buf q @ [x]\<rparr>, qs)
        else (q\<lparr>buf := [x]\<rparr>,
              qs\<lparr>completed_buffers := completed_buffers qs @ [buf q]\<rparr>))"

text \<open>
  Modelled from the spec: \<^verbatim>\<open>PtrQueue::flush\<close> (missing with \<^verbatim>\<open>PtrQueue\<close>). The spec:
  "hand off their contents to the respective Buffer Set's completed-buffer list". A
  buffer that holds records goes to the end of the completed list and the queue is left
  empty; an empty buffer has nothing to hand off.
\<close>

definition PtrQueue_flush ::
  "'a PtrQueue \<times> 'a PtrQueueSet \<Rightarrow> 'a PtrQueue \<times> 'a PtrQueueSet" where
  "PtrQueue_flush p =
     (case p of (q, qs) \<Rightarrow>
        if buf q = [] then (q, qs)
        else (q\<lparr>buf := []\<rparr>,
              qs\<lparr>completed_buffers := completed_buffers qs @ [buf q]\<rparr>))"

text \<open>
  Modelled from the spec: \<^verbatim>\<open>PtrQueue::is_empty\<close> and \<^verbatim>\<open>PtrQueue::set_active\<close> (missing
  with \<^verbatim>\<open>PtrQueue\<close>): the buffer holds no record; the flag is set.
\<close>

definition PtrQueue_is_empty :: "'a PtrQueue \<Rightarrow> bool" where
  "PtrQueue_is_empty q = (buf q = [])"

definition set_active :: "bool \<Rightarrow> 'a PtrQueue \<Rightarrow> 'a PtrQueue" where
  "set_active b q = q\<lparr>active := b\<rparr>"

text \<open>
  Modelled from the spec: \<^verbatim>\<open>MemRegion::is_empty\<close> and \<^verbatim>\<open>MemRegion::last\<close>
  (\<^verbatim>\<open>memory/memRegion.hpp\<close> is missing). The spec: "last(region) gives the highest
  address in a region, used to compute inclusive scan bounds". \<^verbatim>\<open>invalidate\<close> takes the
  last address of a region only after it has found the region not empty, so the
  subtraction never meets 0.
\<close>

definition mr_is_empty :: "MemRegion \<Rightarrow> bool" where
  "mr_is_empty mr = (mr_word_size mr = 0)"

definition mr_last :: "MemRegion \<Rightarrow> heap_word_ptr" where
  "mr_last mr = mr_start mr + mr_word_size mr - 1"

text \<open>
  \<^verbatim>\<open>CompressedOops::is_null\<close> and \<^verbatim>\<open>CompressedOops::decode_not_null\<close> for the slot type
  \<^verbatim>\<open>T\<close> (\<^verbatim>\<open>oop\<close> or \<^verbatim>\<open>narrowOop\<close>). \<^verbatim>\<open>oops/compressedOops.inline.hpp\<close> is missing, so the
  two functions are parameters of the array barrier.
\<close>

record 'T CompressedOops =
  is_null :: "'T \<Rightarrow> bool"
  decode_not_null :: "'T \<Rightarrow> oop"

text \<open>
  Modelled from the spec: the overloads for \<^verbatim>\<open>T = oop\<close>, a full-width reference that
  is its own decoding and is null when it is \<^verbatim>\<open>NULL\<close>.
\<close>

definition oop_CompressedOops :: "oop CompressedOops" where
  "oop_CompressedOops = \<lparr>is_null = (\<lambda>v. v = NULL), decode_not_null = (\<lambda>v. v)\<rparr>"

text \<open>
  Modelled from the spec: \<^verbatim>\<open>RawAccess<>::oop_load\<close> (\<^verbatim>\<open>oops/access.inline.hpp\<close> is
  missing): "read the current (possibly compressed) reference". \<open>mem\<close> is the content of
  the array slots; the read is recorded in \<open>oop_loads\<close>.
\<close>

definition oop_load :: "(nat \<Rightarrow> 'T) \<Rightarrow> nat \<Rightarrow> vm \<Rightarrow> 'T \<times> vm" where
  "oop_load mem p s = (mem p, s\<lparr>oop_loads := oop_loads s @ [p]\<rparr>)"

text \<open>
  Modelled from the spec: \<^verbatim>\<open>CardTableBarrierSet::on_thread_detach\<close>
  (\<^verbatim>\<open>gc/shared/cardTableBarrierSet.cpp\<close> is missing). The spec calls it "base-class
  card-table detach bookkeeping (external collaborator)"; what it keeps is outside the
  state modelled here.
\<close>

definition CardTableBarrierSet_on_thread_detach :: "thread_id \<Rightarrow> vm \<Rightarrow> vm" where
  "CardTableBarrierSet_on_thread_detach thread s = s"

text \<open>
  Modelled from the spec: \<^verbatim>\<open>MutexLockerEx\<close> (\<^verbatim>\<open>runtime/mutexLocker.hpp\<close> is missing). The
  spec: "acquire the shared-buffer lock (a non-safepoint-checking lock) and append to the
  shared buffer". The constructor takes the lock, the end of the scope releases it; on
  a sequential run either is an event of the trace and nothing else.
\<close>

definition MutexLockerEx_lock :: "mutex \<Rightarrow> vm \<Rightarrow> vm" where
  "MutexLockerEx_lock m s = s\<lparr>sync_trace := sync_trace s @ [mutex_locked m]\<rparr>"

definition MutexLockerEx_unlock :: "mutex \<Rightarrow> vm \<Rightarrow> vm" where
  "MutexLockerEx_unlock m s = s\<lparr>sync_trace := sync_trace s @ [mutex_unlocked m]\<rparr>"

subsection \<open>Expressions of the source that reach into the state\<close>

text \<open>\<^verbatim>\<open>jt->satb_mark_queue().enqueue(pre_val)\<close> with \<^verbatim>\<open>jt\<close> the thread \<open>thr\<close>.\<close>

definition satb_mark_queue_enqueue :: "thread_id \<Rightarrow> oop \<Rightarrow> vm \<Rightarrow> vm" where
  "satb_mark_queue_enqueue thr pre_val s =
     (let jt = threads s thr in
      case PtrQueue_enqueue pre_val (satb_mark_queue jt, satb_mark_queue_set s) of
        (q, qs) \<Rightarrow>
          s\<lparr>threads := (threads s)(thr := jt\<lparr>satb_mark_queue := q\<rparr>),
            satb_mark_queue_set := qs\<rparr>)"

text \<open>
  \<^verbatim>\<open>JavaThread::satb_mark_queue_set().shared_satb_queue()->enqueue(pre_val)\<close>; the
  enqueue into the shared queue is recorded in the trace.
\<close>

definition shared_satb_queue_enqueue :: "oop \<Rightarrow> vm \<Rightarrow> vm" where
  "shared_satb_queue_enqueue pre_val s =
     (let qs0 = satb_mark_queue_set s in
      case PtrQueue_enqueue pre_val (shared_queue qs0, qs0) of
        (q, qs) \<Rightarrow>
          s\<lparr>satb_mark_queue_set := qs\<lparr>shared_queue := q\<rparr>,
            sync_trace := sync_trace s @ [shared_satb_enqueued pre_val]\<rparr>)"

text \<open>\<^verbatim>\<open>jt->dirty_card_queue().enqueue(byte)\<close> with \<^verbatim>\<open>jt\<close> the thread \<open>thr\<close>.\<close>

definition dirty_card_queue_enqueue :: "thread_id \<Rightarrow> card_ptr \<Rightarrow> vm \<Rightarrow> vm" where
  "dirty_card_queue_enqueue thr byte s =
     (let jt = threads s thr in
      case PtrQueue_enqueue byte (dirty_card_queue jt, dcqs s) of
        (q, qs) \<Rightarrow>
          s\<lparr>threads := (threads s)(thr := jt\<lparr>dirty_card_queue := q\<rparr>),
            dcqs := qs\<rparr>)"

text \<open>
  \<^verbatim>\<open>_dcqs.shared_dirty_card_queue()->enqueue(byte)\<close>; the enqueue into the shared queue
  is recorded in the trace.
\<close>

definition shared_dirty_card_queue_enqueue :: "card_ptr \<Rightarrow> vm \<Rightarrow> vm" where
  "shared_dirty_card_queue_enqueue byte s =
     (let qs0 = dcqs s in
      case PtrQueue_enqueue byte (shared_queue qs0, qs0) of
        (q, qs) \<Rightarrow>
          s\<lparr>dcqs := qs\<lparr>shared_queue := q\<rparr>,
            sync_trace := sync_trace s @ [shared_dirty_card_enqueued byte]\<rparr>)"

text \<open>\<^verbatim>\<open>*byte\<close> read, and \<^verbatim>\<open>*byte = v\<close>.\<close>

definition card_at :: "vm \<Rightarrow> card_ptr \<Rightarrow> jbyte" where
  "card_at s byte = byte_map (card_table s) byte"

definition store_card :: "card_ptr \<Rightarrow> jbyte \<Rightarrow> vm \<Rightarrow> vm" where
  "store_card byte v s =
     s\<lparr>card_table := (card_table s)\<lparr>byte_map := (byte_map (card_table s))(byte := v)\<rparr>\<rparr>"

subsection \<open>The member functions\<close>

text \<open>\<^verbatim>\<open>G1BarrierSet::enqueue(oop pre_val)\<close>, lines 47-60.\<close>

definition enqueue :: "thread_id \<Rightarrow> oop \<Rightarrow> vm \<Rightarrow> vm_error + vm" where
  "enqueue thr pre_val s =
     (if debug_build s \<and> \<not> is_oop s pre_val then Inl (assert_failed ''Error'')
      else if \<not> all_active (satb_mark_queue_set s) then Inr s
      else if is_Java_thread (threads s thr)
        then Inr (satb_mark_queue_enqueue thr pre_val s)
        else Inr (MutexLockerEx_unlock Shared_SATB_Q_lock
                    (shared_satb_queue_enqueue pre_val
                       (MutexLockerEx_lock Shared_SATB_Q_lock s))))"

text \<open>
  The loop of \<^verbatim>\<open>write_ref_array_pre_work\<close>, lines 81-86, from the state in which the
  counter is \<open>i\<close> and the pointer is \<open>elem_ptr\<close>. A failed assertion inside \<^verbatim>\<open>enqueue\<close>
  ends the run.
\<close>

function write_ref_array_pre_loop ::
  "'T CompressedOops \<Rightarrow> (nat \<Rightarrow> 'T) \<Rightarrow> nat \<Rightarrow> thread_id \<Rightarrow> nat \<Rightarrow> nat \<Rightarrow> vm
     \<Rightarrow> vm_error + vm" where
  "write_ref_array_pre_loop C mem count thr i elem_ptr s =
     (if i < count then
        (case oop_load mem elem_ptr s of
           (heap_oop, s1) \<Rightarrow>
             if \<not> is_null C heap_oop then
               (case enqueue thr (decode_not_null C heap_oop) s1 of
                  Inl e \<Rightarrow> Inl e
                | Inr s2 \<Rightarrow>
                    write_ref_array_pre_loop C mem count thr (Suc i) (Suc elem_ptr) s2)
             else write_ref_array_pre_loop C mem count thr (Suc i) (Suc elem_ptr) s1)
      else Inr s)"
  by pat_completeness auto
termination
  by (relation "measure (\<lambda>(C, mem, count, thr, i, elem_ptr, s). count - i)") auto

text \<open>\<^verbatim>\<open>G1BarrierSet::write_ref_array_pre_work(T* dst, size_t count)\<close>, lines 77-87.\<close>

definition write_ref_array_pre_work ::
  "'T CompressedOops \<Rightarrow> (nat \<Rightarrow> 'T) \<Rightarrow> thread_id \<Rightarrow> nat \<Rightarrow> nat \<Rightarrow> vm \<Rightarrow> vm_error + vm" where
  "write_ref_array_pre_work C mem thr dst count s =
     (if \<not> all_active (satb_mark_queue_set s) then Inr s
      else write_ref_array_pre_loop C mem count thr 0 dst s)"

text \<open>
  \<^verbatim>\<open>G1BarrierSet::write_ref_array_pre\<close>, lines 89-93 for \<^verbatim>\<open>oop*\<close> and lines 95-99 for
  \<^verbatim>\<open>narrowOop*\<close>: the two overloads have the same body, and differ in the slot type.
\<close>

definition write_ref_array_pre ::
  "'T CompressedOops \<Rightarrow> (nat \<Rightarrow> 'T) \<Rightarrow> thread_id \<Rightarrow> nat \<Rightarrow> nat \<Rightarrow> bool \<Rightarrow> vm
     \<Rightarrow> vm_error + vm" where
  "write_ref_array_pre C mem thr dst count dest_uninitialized s =
     (if \<not> dest_uninitialized then write_ref_array_pre_work C mem thr dst count s
      else Inr s)"

text \<open>\<^verbatim>\<open>G1BarrierSet::write_ref_field_post_slow(volatile jbyte* byte)\<close>, lines 101-117.\<close>

definition write_ref_field_post_slow :: "thread_id \<Rightarrow> card_ptr \<Rightarrow> vm \<Rightarrow> vm_error + vm" where
  "write_ref_field_post_slow thr byte s =
     (if debug_build s \<and> \<not> (card_at s byte \<noteq> g1_young_card_val (card_table s))
        then Inl (assert_failed ''slow path invoked without filtering'')
      else if card_at s byte \<noteq> dirty_card_val (card_table s) then
        (let s1 = store_card byte (dirty_card_val (card_table s)) s in
         if is_Java_thread (threads s1 thr)
           then Inr (dirty_card_queue_enqueue thr byte s1)
           else Inr (MutexLockerEx_unlock Shared_DirtyCardQ_lock
                       (shared_dirty_card_queue_enqueue byte
                          (MutexLockerEx_lock Shared_DirtyCardQ_lock s1))))
      else Inr s)"

text \<open>
  The first loop of \<^verbatim>\<open>invalidate\<close>, line 127: the pointer after all consecutive young
  cards have been skipped.
\<close>

function skip_young :: "vm \<Rightarrow> card_ptr \<Rightarrow> card_ptr \<Rightarrow> card_ptr" where
  "skip_young s byte last_byte =
     (if byte \<le> last_byte \<and> card_at s byte = g1_young_card_val (card_table s)
      then skip_young s (Suc byte) last_byte
      else byte)"
  by pat_completeness auto
termination
  by (relation "measure (\<lambda>(s, byte, last_byte). Suc last_byte - byte)") auto

text \<open>
  The second loop of \<^verbatim>\<open>invalidate\<close>, written twice in the source: lines 134-142 with
  \<open>enq\<close> the queue of the Java thread, lines 146-154 with \<open>enq\<close> the shared queue, inside
  the scope of the lock of lines 144-145.
\<close>

function invalidate_loop ::
  "(card_ptr \<Rightarrow> vm \<Rightarrow> vm) \<Rightarrow> card_ptr \<Rightarrow> card_ptr \<Rightarrow> vm \<Rightarrow> vm" where
  "invalidate_loop enq byte last_byte s =
     (if byte \<le> last_byte then
        (if card_at s byte = g1_young_card_val (card_table s)
           then invalidate_loop enq (Suc byte) last_byte s
         else if card_at s byte \<noteq> dirty_card_val (card_table s)
           then invalidate_loop enq (Suc byte) last_byte
                  (enq byte (store_card byte (dirty_card_val (card_table s)) s))
         else invalidate_loop enq (Suc byte) last_byte s)
      else s)"
  by pat_completeness auto
termination
  by (relation "measure (\<lambda>(enq, byte, last_byte, s). Suc last_byte - byte)") auto

text \<open>\<^verbatim>\<open>G1BarrierSet::invalidate(MemRegion mr)\<close>, lines 119-157.\<close>

definition invalidate :: "thread_id \<Rightarrow> MemRegion \<Rightarrow> vm \<Rightarrow> vm" where
  "invalidate thr mr s =
     (if mr_is_empty mr then s
      else
        (let first_byte = byte_for (card_table s) (mr_start mr);
             last_byte = byte_for (card_table s) (mr_last mr);
             byte = skip_young s first_byte last_byte
         in if byte \<le> last_byte then
              (if is_Java_thread (threads s thr)
                 then invalidate_loop (dirty_card_queue_enqueue thr) byte last_byte s
                 else MutexLockerEx_unlock Shared_DirtyCardQ_lock
                        (invalidate_loop shared_dirty_card_queue_enqueue byte last_byte
                           (MutexLockerEx_lock Shared_DirtyCardQ_lock s)))
            else s))"

text \<open>\<^verbatim>\<open>G1BarrierSet::on_thread_attach(JavaThread* thread)\<close>, lines 159-187.\<close>

definition on_thread_attach :: "thread_id \<Rightarrow> vm \<Rightarrow> vm_error + vm" where
  "on_thread_attach thread s =
     (if debug_build s \<and> \<not> (\<not> at_safepoint s)
        then Inl (assert_failed ''We should not be at a safepoint'')
      else if debug_build s \<and> \<not> (\<not> active (satb_mark_queue (threads s thread)))
        then Inl (assert_failed ''SATB queue should not be active'')
      else if debug_build s \<and> \<not> PtrQueue_is_empty (satb_mark_queue (threads s thread))
        then Inl (assert_failed ''SATB queue should be empty'')
      else if debug_build s \<and> \<not> active (dirty_card_queue (threads s thread))
        then Inl (assert_failed ''Dirty card queue should be active'')
      else if all_active (satb_mark_queue_set s) then
        Inr (s\<lparr>threads := (threads s)
                 (thread := (threads s thread)
                    \<lparr>satb_mark_queue := set_active True (satb_mark_queue (threads s thread))\<rparr>)\<rparr>)
      else Inr s)"

text \<open>
  \<^verbatim>\<open>thread->satb_mark_queue().flush()\<close> and \<^verbatim>\<open>thread->dirty_card_queue().flush()\<close>.
\<close>

definition satb_mark_queue_flush :: "thread_id \<Rightarrow> vm \<Rightarrow> vm" where
  "satb_mark_queue_flush thread s =
     (let jt = threads s thread in
      case PtrQueue_flush (satb_mark_queue jt, satb_mark_queue_set s) of
        (q, qs) \<Rightarrow>
          s\<lparr>threads := (threads s)(thread := jt\<lparr>satb_mark_queue := q\<rparr>),
            satb_mark_queue_set := qs\<rparr>)"

definition dirty_card_queue_flush :: "thread_id \<Rightarrow> vm \<Rightarrow> vm" where
  "dirty_card_queue_flush thread s =
     (let jt = threads s thread in
      case PtrQueue_flush (dirty_card_queue jt, dcqs s) of
        (q, qs) \<Rightarrow>
          s\<lparr>threads := (threads s)(thread := jt\<lparr>dirty_card_queue := q\<rparr>),
            dcqs := qs\<rparr>)"

text \<open>\<^verbatim>\<open>G1BarrierSet::on_thread_detach(JavaThread* thread)\<close>, lines 189-194.\<close>

definition on_thread_detach :: "thread_id \<Rightarrow> vm \<Rightarrow> vm" where
  "on_thread_detach thread s =
     dirty_card_queue_flush thread
       (satb_mark_queue_flush thread
          (CardTableBarrierSet_on_thread_detach thread s))"

subsection \<open>Vocabulary of the statements\<close>

text \<open>
  A buffer of one kind (SATB or dirty card) is named by a \<open>queue_id\<close>: the queue of a
  thread, or the shared queue of the set. \<open>queue_of s thr\<close> is the buffer the barrier
  run by thread \<open>thr\<close> enqueues into: its own for a Java thread (a mutator), the shared
  one otherwise.
\<close>

datatype queue_id = thread_queue thread_id | shared_q

definition satb_queue :: "vm \<Rightarrow> queue_id \<Rightarrow> oop PtrQueue" where
  "satb_queue s b =
     (case b of thread_queue t \<Rightarrow> satb_mark_queue (threads s t)
      | shared_q \<Rightarrow> shared_queue (satb_mark_queue_set s))"

definition dirty_queue :: "vm \<Rightarrow> queue_id \<Rightarrow> card_ptr PtrQueue" where
  "dirty_queue s b =
     (case b of thread_queue t \<Rightarrow> dirty_card_queue (threads s t)
      | shared_q \<Rightarrow> shared_queue (dcqs s))"

definition queue_of :: "vm \<Rightarrow> thread_id \<Rightarrow> queue_id" where
  "queue_of s thr = (if is_Java_thread (threads s thr) then thread_queue thr else shared_q)"

text \<open>
  The records a queue set holds, read from the buffer \<open>b\<close>: those of the completed
  buffers of the set, oldest first, then those of \<open>b\<close> itself. An enqueue into \<open>b\<close> that
  finds it full moves its records from the second part to the end of the first; so a
  record enqueued into \<open>b\<close> is one more element at the end of this sequence, whether a
  buffer is handed off or not.
\<close>

definition satb_records :: "vm \<Rightarrow> queue_id \<Rightarrow> oop list" where
  "satb_records s b = concat (completed_buffers (satb_mark_queue_set s)) @ buf (satb_queue s b)"

definition dirty_records :: "vm \<Rightarrow> queue_id \<Rightarrow> card_ptr list" where
  "dirty_records s b = concat (completed_buffers (dcqs s)) @ buf (dirty_queue s b)"

text \<open>
  The invariant of the SATB buffers: no buffer of a thread, nor the shared buffer, nor a
  completed buffer, holds \<^verbatim>\<open>NULL\<close>.
\<close>

definition satb_no_null :: "vm \<Rightarrow> bool" where
  "satb_no_null s =
     ((\<forall>b. NULL \<notin> set (buf (satb_queue s b))) \<and>
      (\<forall>cb \<in> set (completed_buffers (satb_mark_queue_set s)). NULL \<notin> set cb))"

text \<open>
  Two frames. \<open>same_but_satb s s'\<close>: \<open>s'\<close> differs from \<open>s\<close> at most in the SATB queues,
  the completed list of the SATB set and the synchronisation trace.
  \<open>same_but_dirty s s'\<close>: \<open>s'\<close> differs from \<open>s\<close> at most in the bytes of the card table,
  the dirty card queues, the completed list of the dirty card queue set and the
  synchronisation trace.
\<close>

definition same_but_satb :: "vm \<Rightarrow> vm \<Rightarrow> bool" where
  "same_but_satb s s' =
     (debug_build s' = debug_build s \<and> at_safepoint s' = at_safepoint s \<and>
      valid_object s' = valid_object s \<and> dcqs s' = dcqs s \<and>
      card_table s' = card_table s \<and> oop_loads s' = oop_loads s \<and>
      all_active (satb_mark_queue_set s') = all_active (satb_mark_queue_set s) \<and>
      (\<forall>t. is_Java_thread (threads s' t) = is_Java_thread (threads s t)) \<and>
      (\<forall>b. dirty_queue s' b = dirty_queue s b))"

definition same_but_dirty :: "vm \<Rightarrow> vm \<Rightarrow> bool" where
  "same_but_dirty s s' =
     (debug_build s' = debug_build s \<and> at_safepoint s' = at_safepoint s \<and>
      valid_object s' = valid_object s \<and>
      satb_mark_queue_set s' = satb_mark_queue_set s \<and> oop_loads s' = oop_loads s \<and>
      all_active (dcqs s') = all_active (dcqs s) \<and>
      g1_young_card_val (card_table s') = g1_young_card_val (card_table s) \<and>
      dirty_card_val (card_table s') = dirty_card_val (card_table s) \<and>
      clean_card_val (card_table s') = clean_card_val (card_table s) \<and>
      byte_for (card_table s') = byte_for (card_table s) \<and>
      (\<forall>t. is_Java_thread (threads s' t) = is_Java_thread (threads s t)) \<and>
      (\<forall>b. satb_queue s' b = satb_queue s b))"

text \<open>
  What \<^verbatim>\<open>write_ref_field_post_slow\<close> and \<^verbatim>\<open>invalidate\<close> choose for the thread \<open>thr\<close>, by
  its kind in the state \<open>s\<close> of the call: the enqueue, and the lock and unlock around
  it, which a Java thread does without. The shared SATB enqueue of \<^verbatim>\<open>enqueue\<close> with its
  lock scope is \<open>locked_shared_satb_queue_enqueue\<close>.
\<close>

definition dirty_enqueue_of :: "vm \<Rightarrow> thread_id \<Rightarrow> card_ptr \<Rightarrow> vm \<Rightarrow> vm" where
  "dirty_enqueue_of s thr =
     (if is_Java_thread (threads s thr) then dirty_card_queue_enqueue thr
      else shared_dirty_card_queue_enqueue)"

definition dirty_lock_of :: "vm \<Rightarrow> thread_id \<Rightarrow> vm \<Rightarrow> vm" where
  "dirty_lock_of s thr =
     (if is_Java_thread (threads s thr) then (\<lambda>s1. s1)
      else MutexLockerEx_lock Shared_DirtyCardQ_lock)"

definition dirty_unlock_of :: "vm \<Rightarrow> thread_id \<Rightarrow> vm \<Rightarrow> vm" where
  "dirty_unlock_of s thr =
     (if is_Java_thread (threads s thr) then (\<lambda>s1. s1)
      else MutexLockerEx_unlock Shared_DirtyCardQ_lock)"

definition locked_dirty_enqueue_of :: "vm \<Rightarrow> thread_id \<Rightarrow> card_ptr \<Rightarrow> vm \<Rightarrow> vm" where
  "locked_dirty_enqueue_of s thr byte s1 =
     dirty_unlock_of s thr (dirty_enqueue_of s thr byte (dirty_lock_of s thr s1))"

definition locked_shared_satb_queue_enqueue :: "oop \<Rightarrow> vm \<Rightarrow> vm" where
  "locked_shared_satb_queue_enqueue r s =
     MutexLockerEx_unlock Shared_SATB_Q_lock
       (shared_satb_queue_enqueue r (MutexLockerEx_lock Shared_SATB_Q_lock s))"

text \<open>
  The events that \<^verbatim>\<open>invalidate\<close>, run by the thread \<open>thr\<close>, adds to the trace when it
  enqueues the cards \<open>cs\<close> inside its lock scope: none for a Java thread, which takes no
  lock and uses its own queue; for another thread the lock, one enqueue into the shared
  queue per card, and the unlock.
\<close>

definition locked_dirty_events :: "vm \<Rightarrow> thread_id \<Rightarrow> card_ptr list \<Rightarrow> sync_event list" where
  "locked_dirty_events s thr cs =
     (if is_Java_thread (threads s thr) then []
      else mutex_locked Shared_DirtyCardQ_lock
             # map shared_dirty_card_enqueued cs @ [mutex_unlocked Shared_DirtyCardQ_lock])"

text \<open>
  The cards that \<^verbatim>\<open>invalidate\<close> scans for a region, from \<open>first_card\<close> to \<open>last_card\<close>
  inclusive, and the cards it has to dirty: those that are neither young nor dirty yet.
\<close>

definition first_card :: "vm \<Rightarrow> MemRegion \<Rightarrow> card_ptr" where
  "first_card s mr = byte_for (card_table s) (mr_start mr)"

definition last_card :: "vm \<Rightarrow> MemRegion \<Rightarrow> card_ptr" where
  "last_card s mr = byte_for (card_table s) (mr_last mr)"

definition needs_dirty :: "vm \<Rightarrow> card_ptr \<Rightarrow> bool" where
  "needs_dirty s c =
     (card_at s c \<noteq> g1_young_card_val (card_table s) \<and>
      card_at s c \<noteq> dirty_card_val (card_table s))"

text \<open>
  The array pre-write barrier in the words of its specification, for comparison with
  \<^verbatim>\<open>write_ref_array_pre_work\<close>: "for each of the count slots starting at destination,
  read the current (possibly compressed) reference; if non-null, decode and call
  enqueue". \<open>ps\<close> are the addresses of the slots, in order.
\<close>

primrec enqueue_slots ::
  "'T CompressedOops \<Rightarrow> (nat \<Rightarrow> 'T) \<Rightarrow> thread_id \<Rightarrow> nat list \<Rightarrow> vm \<Rightarrow> vm_error + vm" where
  "enqueue_slots C mem thr [] s = Inr s"
| "enqueue_slots C mem thr (p # ps) s =
     (case oop_load mem p s of
        (v, s1) \<Rightarrow>
          if is_null C v then enqueue_slots C mem thr ps s1
          else (case enqueue thr (decode_not_null C v) s1 of
                  Inl e \<Rightarrow> Inl e
                | Inr s2 \<Rightarrow> enqueue_slots C mem thr ps s2))"

subsection \<open>A concrete VM\<close>

text \<open>
  A small state on which the theorems are exercised. Thread 0 is a Java thread that is
  not attached yet, every other thread is not a Java thread. Buffers hold one record, so
  that a second enqueue hands a buffer off. Cards cover 64 heap words; cards 0 and 1 are
  young, every other card is clean. Every address but \<^verbatim>\<open>NULL\<close> holds an object.
\<close>

definition example_thread :: "bool \<Rightarrow> Thread" where
  "example_thread java =
     \<lparr>is_Java_thread = java,
      satb_mark_queue = \<lparr>active = False, buf = []\<rparr>,
      dirty_card_queue = \<lparr>active = True, buf = []\<rparr>\<rparr>"

definition example_card_table :: G1CardTable where
  "example_card_table =
     \<lparr>g1_young_card_val = 32, dirty_card_val = 0, clean_card_val = - 1,
      byte_for = (\<lambda>p. p div 64),
      byte_map = (\<lambda>c. if c < 2 then 32 else - 1)\<rparr>"

definition example_vm :: "bool \<Rightarrow> bool \<Rightarrow> vm" where
  "example_vm dbg act =
     \<lparr>debug_build = dbg, at_safepoint = False, valid_object = (\<lambda>p. 0 < p),
      threads = (\<lambda>t. example_thread (t = 0)),
      satb_mark_queue_set =
        \<lparr>all_active = act, shared_queue = \<lparr>active = act, buf = []\<rparr>,
         completed_buffers = [], buffer_size = 1\<rparr>,
      dcqs =
        \<lparr>all_active = True, shared_queue = \<lparr>active = True, buf = []\<rparr>,
         completed_buffers = [], buffer_size = 1\<rparr>,
      card_table = example_card_table, oop_loads = [], sync_trace = []\<rparr>"

text \<open>Four cards: the young cards 0 and 1, the clean cards 2 and 3.\<close>

definition example_region :: MemRegion where
  "example_region = \<lparr>mr_start = 0, mr_word_size = 256\<rparr>"

text \<open>
  An object array of full-width references: slot \<open>p\<close> holds the reference \<open>p + 10\<close>,
  but slot 6 holds \<^verbatim>\<open>NULL\<close>.
\<close>

definition example_slots :: "nat \<Rightarrow> oop" where
  "example_slots p = (if p = 6 then NULL else p + 10)"

section \<open>Properties\<close>

declare invalidate_loop.simps [simp del] skip_young.simps [simp del]
  write_ref_array_pre_loop.simps [simp del]

subsection \<open>The queues\<close>

lemma PtrQueue_enqueue_fst:
  "active (fst (PtrQueue_enqueue x (q, qs))) = active q"
  "buf (fst (PtrQueue_enqueue x (q, qs))) \<noteq> []"
  "last (buf (fst (PtrQueue_enqueue x (q, qs)))) = x"
  "set (buf (fst (PtrQueue_enqueue x (q, qs)))) \<subseteq> insert x (set (buf q))"
  by (auto simp: PtrQueue_enqueue_def)

lemma PtrQueue_enqueue_snd:
  "all_active (snd (PtrQueue_enqueue x (q, qs))) = all_active qs"
  "shared_queue (snd (PtrQueue_enqueue x (q, qs))) = shared_queue qs"
  "buffer_size (snd (PtrQueue_enqueue x (q, qs))) = buffer_size qs"
  "set (completed_buffers (snd (PtrQueue_enqueue x (q, qs))))
     \<subseteq> insert (buf q) (set (completed_buffers qs))"
  by (auto simp: PtrQueue_enqueue_def)

lemma PtrQueue_enqueue_records:
  "concat (completed_buffers (snd (PtrQueue_enqueue x (q, qs))))
     @ buf (fst (PtrQueue_enqueue x (q, qs)))
   = concat (completed_buffers qs) @ buf q @ [x]"
  by (simp add: PtrQueue_enqueue_def)

lemmas PtrQueue_enqueue_simps =
  PtrQueue_enqueue_fst(1-3) PtrQueue_enqueue_snd(1-3) PtrQueue_enqueue_records

lemma MutexLockerEx_lock_obs:
  "satb_queue (MutexLockerEx_lock m s) = satb_queue s"
  "dirty_queue (MutexLockerEx_lock m s) = dirty_queue s"
  "satb_records (MutexLockerEx_lock m s) = satb_records s"
  "dirty_records (MutexLockerEx_lock m s) = dirty_records s"
  "queue_of (MutexLockerEx_lock m s) = queue_of s"
  "card_at (MutexLockerEx_lock m s) = card_at s"
  "needs_dirty (MutexLockerEx_lock m s) = needs_dirty s"
  "satb_no_null (MutexLockerEx_lock m s) = satb_no_null s"
  "card_table (MutexLockerEx_lock m s) = card_table s"
  "same_but_satb s (MutexLockerEx_lock m s)"
  "same_but_dirty s (MutexLockerEx_lock m s)"
  "sync_trace (MutexLockerEx_lock m s) = sync_trace s @ [mutex_locked m]"
  by (simp_all add: MutexLockerEx_lock_def fun_eq_iff satb_queue_def dirty_queue_def
      satb_records_def dirty_records_def queue_of_def card_at_def needs_dirty_def
      satb_no_null_def same_but_satb_def same_but_dirty_def split: queue_id.splits)

lemma MutexLockerEx_unlock_obs:
  "satb_queue (MutexLockerEx_unlock m s) = satb_queue s"
  "dirty_queue (MutexLockerEx_unlock m s) = dirty_queue s"
  "satb_records (MutexLockerEx_unlock m s) = satb_records s"
  "dirty_records (MutexLockerEx_unlock m s) = dirty_records s"
  "queue_of (MutexLockerEx_unlock m s) = queue_of s"
  "card_at (MutexLockerEx_unlock m s) = card_at s"
  "needs_dirty (MutexLockerEx_unlock m s) = needs_dirty s"
  "satb_no_null (MutexLockerEx_unlock m s) = satb_no_null s"
  "card_table (MutexLockerEx_unlock m s) = card_table s"
  "same_but_satb s (MutexLockerEx_unlock m s)"
  "same_but_dirty s (MutexLockerEx_unlock m s)"
  "sync_trace (MutexLockerEx_unlock m s) = sync_trace s @ [mutex_unlocked m]"
  by (simp_all add: MutexLockerEx_unlock_def fun_eq_iff satb_queue_def dirty_queue_def
      satb_records_def dirty_records_def queue_of_def card_at_def needs_dirty_def
      satb_no_null_def same_but_satb_def same_but_dirty_def split: queue_id.splits)

lemma satb_mark_queue_enqueue_frame:
  "same_but_satb s (satb_mark_queue_enqueue thr x s)"
  by (simp add: same_but_satb_def satb_mark_queue_enqueue_def Let_def dirty_queue_def
      split_beta PtrQueue_enqueue_simps split: queue_id.splits)

lemma shared_satb_queue_enqueue_frame:
  "same_but_satb s (shared_satb_queue_enqueue x s)"
  by (simp add: same_but_satb_def shared_satb_queue_enqueue_def Let_def dirty_queue_def
      split_beta PtrQueue_enqueue_simps split: queue_id.splits)

lemma satb_mark_queue_enqueue_target:
  "buf (satb_queue (satb_mark_queue_enqueue thr x s) (thread_queue thr)) \<noteq> [] \<and>
   last (buf (satb_queue (satb_mark_queue_enqueue thr x s) (thread_queue thr))) = x \<and>
   satb_records (satb_mark_queue_enqueue thr x s) (thread_queue thr) =
     satb_records s (thread_queue thr) @ [x] \<and>
   (\<forall>b. b \<noteq> thread_queue thr \<longrightarrow>
      satb_queue (satb_mark_queue_enqueue thr x s) b = satb_queue s b)"
  by (simp add: satb_mark_queue_enqueue_def Let_def satb_queue_def satb_records_def
      split_beta PtrQueue_enqueue_simps split: queue_id.splits)

lemma shared_satb_queue_enqueue_target:
  "buf (satb_queue (shared_satb_queue_enqueue x s) shared_q) \<noteq> [] \<and>
   last (buf (satb_queue (shared_satb_queue_enqueue x s) shared_q)) = x \<and>
   satb_records (shared_satb_queue_enqueue x s) shared_q = satb_records s shared_q @ [x] \<and>
   (\<forall>b. b \<noteq> shared_q \<longrightarrow> satb_queue (shared_satb_queue_enqueue x s) b = satb_queue s b)"
  by (simp add: shared_satb_queue_enqueue_def Let_def satb_queue_def satb_records_def
      split_beta PtrQueue_enqueue_simps split: queue_id.splits)

lemma satb_mark_queue_enqueue_no_null:
  assumes "satb_no_null s" and "x \<noteq> NULL"
  shows "satb_no_null (satb_mark_queue_enqueue thr x s)"
proof -
  let ?p = "PtrQueue_enqueue x (satb_mark_queue (threads s thr), satb_mark_queue_set s)"
  have old: "NULL \<notin> set (buf (satb_mark_queue (threads s t)))"
    "NULL \<notin> set (buf (shared_queue (satb_mark_queue_set s)))"
    "\<And>cb. cb \<in> set (completed_buffers (satb_mark_queue_set s)) \<Longrightarrow> NULL \<notin> set cb" for t
    using assms(1) unfolding satb_no_null_def satb_queue_def
    by (auto split: queue_id.splits)
  have b: "NULL \<notin> set (buf (fst ?p))"
    using PtrQueue_enqueue_fst(4)[of x "satb_mark_queue (threads s thr)" "satb_mark_queue_set s"]
      old(1)[of thr] assms(2) by auto
  have c: "cb \<in> set (completed_buffers (snd ?p)) \<Longrightarrow> NULL \<notin> set cb" for cb
    using PtrQueue_enqueue_snd(4)[of x "satb_mark_queue (threads s thr)" "satb_mark_queue_set s"]
      old(1)[of thr] old(3) by auto
  show ?thesis
    unfolding satb_no_null_def satb_queue_def
    using b c old
    by (auto simp: satb_mark_queue_enqueue_def Let_def split_beta PtrQueue_enqueue_simps
        split: queue_id.splits)
qed

lemma shared_satb_queue_enqueue_no_null:
  assumes "satb_no_null s" and "x \<noteq> NULL"
  shows "satb_no_null (shared_satb_queue_enqueue x s)"
proof -
  let ?p = "PtrQueue_enqueue x (shared_queue (satb_mark_queue_set s), satb_mark_queue_set s)"
  have old: "NULL \<notin> set (buf (satb_mark_queue (threads s t)))"
    "NULL \<notin> set (buf (shared_queue (satb_mark_queue_set s)))"
    "\<And>cb. cb \<in> set (completed_buffers (satb_mark_queue_set s)) \<Longrightarrow> NULL \<notin> set cb" for t
    using assms(1) unfolding satb_no_null_def satb_queue_def
    by (auto split: queue_id.splits)
  have b: "NULL \<notin> set (buf (fst ?p))"
    using PtrQueue_enqueue_fst(4)[of x "shared_queue (satb_mark_queue_set s)" "satb_mark_queue_set s"]
      old(2) assms(2) by auto
  have c: "cb \<in> set (completed_buffers (snd ?p)) \<Longrightarrow> NULL \<notin> set cb" for cb
    using PtrQueue_enqueue_snd(4)[of x "shared_queue (satb_mark_queue_set s)" "satb_mark_queue_set s"]
      old(2) old(3) by auto
  show ?thesis
    unfolding satb_no_null_def satb_queue_def
    using b c old
    by (auto simp: shared_satb_queue_enqueue_def Let_def split_beta PtrQueue_enqueue_simps
        split: queue_id.splits)
qed
lemma same_but_satb_refl: "same_but_satb s s"
  by (simp add: same_but_satb_def)

lemma same_but_satb_trans:
  "same_but_satb s s1 \<Longrightarrow> same_but_satb s1 s2 \<Longrightarrow> same_but_satb s s2"
  by (simp add: same_but_satb_def)

lemma locked_shared_satb_queue_enqueue_frame:
  "same_but_satb s (locked_shared_satb_queue_enqueue x s)"
  unfolding locked_shared_satb_queue_enqueue_def
  by (blast intro: same_but_satb_trans MutexLockerEx_lock_obs(10) MutexLockerEx_unlock_obs(10)
      shared_satb_queue_enqueue_frame)

lemma locked_shared_satb_queue_enqueue_target:
  "buf (satb_queue (locked_shared_satb_queue_enqueue x s) shared_q) \<noteq> [] \<and>
   last (buf (satb_queue (locked_shared_satb_queue_enqueue x s) shared_q)) = x \<and>
   satb_records (locked_shared_satb_queue_enqueue x s) shared_q = satb_records s shared_q @ [x] \<and>
   (\<forall>b. b \<noteq> shared_q \<longrightarrow>
      satb_queue (locked_shared_satb_queue_enqueue x s) b = satb_queue s b)"
  using shared_satb_queue_enqueue_target[of x "MutexLockerEx_lock Shared_SATB_Q_lock s"]
  by (simp add: locked_shared_satb_queue_enqueue_def MutexLockerEx_lock_obs
      MutexLockerEx_unlock_obs)

lemma locked_shared_satb_queue_enqueue_no_null:
  "satb_no_null s \<Longrightarrow> x \<noteq> NULL \<Longrightarrow> satb_no_null (locked_shared_satb_queue_enqueue x s)"
  using shared_satb_queue_enqueue_no_null[of "MutexLockerEx_lock Shared_SATB_Q_lock s" x]
  by (simp add: locked_shared_satb_queue_enqueue_def MutexLockerEx_lock_obs
      MutexLockerEx_unlock_obs)

lemma same_but_dirty_refl: "same_but_dirty s s"
  by (simp add: same_but_dirty_def)

lemma same_but_dirty_trans:
  "same_but_dirty s s1 \<Longrightarrow> same_but_dirty s1 s2 \<Longrightarrow> same_but_dirty s s2"
  by (simp add: same_but_dirty_def)

lemma same_but_dirty_no_null: "same_but_dirty s s' \<Longrightarrow> satb_no_null s' = satb_no_null s"
  by (simp add: same_but_dirty_def satb_no_null_def)

lemma store_card_frame: "same_but_dirty s (store_card byte v s)"
  by (simp add: same_but_dirty_def store_card_def satb_queue_def split: queue_id.splits)

lemma store_card_queues:
  "dcqs (store_card byte v s) = dcqs s"
  "dirty_queue (store_card byte v s) b = dirty_queue s b"
  "dirty_records (store_card byte v s) b = dirty_records s b"
  "threads (store_card byte v s) = threads s"
  "sync_trace (store_card byte v s) = sync_trace s"
  by (simp_all add: store_card_def dirty_queue_def dirty_records_def split: queue_id.splits)

lemma card_at_store_card:
  "card_at (store_card byte v s) c = (if c = byte then v else card_at s c)"
  by (simp add: store_card_def card_at_def)

lemma dirty_card_queue_enqueue_frame:
  "same_but_dirty s (dirty_card_queue_enqueue thr x s)"
  "card_table (dirty_card_queue_enqueue thr x s) = card_table s"
  by (simp_all add: same_but_dirty_def dirty_card_queue_enqueue_def Let_def satb_queue_def
      split_beta PtrQueue_enqueue_simps split: queue_id.splits)

lemma shared_dirty_card_queue_enqueue_frame:
  "same_but_dirty s (shared_dirty_card_queue_enqueue x s)"
  "card_table (shared_dirty_card_queue_enqueue x s) = card_table s"
  by (simp_all add: same_but_dirty_def shared_dirty_card_queue_enqueue_def Let_def satb_queue_def
      split_beta PtrQueue_enqueue_simps split: queue_id.splits)

lemma dirty_card_queue_enqueue_target:
  "buf (dirty_queue (dirty_card_queue_enqueue thr x s) (thread_queue thr)) \<noteq> [] \<and>
   last (buf (dirty_queue (dirty_card_queue_enqueue thr x s) (thread_queue thr))) = x \<and>
   dirty_records (dirty_card_queue_enqueue thr x s) (thread_queue thr) =
     dirty_records s (thread_queue thr) @ [x] \<and>
   (\<forall>b. b \<noteq> thread_queue thr \<longrightarrow>
      dirty_queue (dirty_card_queue_enqueue thr x s) b = dirty_queue s b)"
  by (simp add: dirty_card_queue_enqueue_def Let_def dirty_queue_def dirty_records_def
      split_beta PtrQueue_enqueue_simps split: queue_id.splits)

lemma shared_dirty_card_queue_enqueue_target:
  "buf (dirty_queue (shared_dirty_card_queue_enqueue x s) shared_q) \<noteq> [] \<and>
   last (buf (dirty_queue (shared_dirty_card_queue_enqueue x s) shared_q)) = x \<and>
   dirty_records (shared_dirty_card_queue_enqueue x s) shared_q =
     dirty_records s shared_q @ [x] \<and>
   (\<forall>b. b \<noteq> shared_q \<longrightarrow>
      dirty_queue (shared_dirty_card_queue_enqueue x s) b = dirty_queue s b)"
  by (simp add: shared_dirty_card_queue_enqueue_def Let_def dirty_queue_def dirty_records_def
      split_beta PtrQueue_enqueue_simps split: queue_id.splits)

lemma dirty_enqueue_of_frame:
  "same_but_dirty s1 (dirty_enqueue_of s thr x s1)"
  "card_table (dirty_enqueue_of s thr x s1) = card_table s1"
  by (simp_all add: dirty_enqueue_of_def dirty_card_queue_enqueue_frame
      shared_dirty_card_queue_enqueue_frame)

lemma dirty_enqueue_of_target:
  "buf (dirty_queue (dirty_enqueue_of s thr x s1) (queue_of s thr)) \<noteq> [] \<and>
   last (buf (dirty_queue (dirty_enqueue_of s thr x s1) (queue_of s thr))) = x \<and>
   dirty_records (dirty_enqueue_of s thr x s1) (queue_of s thr) =
     dirty_records s1 (queue_of s thr) @ [x] \<and>
   (\<forall>b. b \<noteq> queue_of s thr \<longrightarrow>
      dirty_queue (dirty_enqueue_of s thr x s1) b = dirty_queue s1 b)"
  using dirty_card_queue_enqueue_target[of thr x s1] shared_dirty_card_queue_enqueue_target[of x s1]
  by (simp add: dirty_enqueue_of_def queue_of_def)
lemma dirty_enqueue_of_trace:
  "sync_trace (dirty_enqueue_of s thr x s1) =
     sync_trace s1 @ (if is_Java_thread (threads s thr) then []
                      else [shared_dirty_card_enqueued x])"
  by (simp add: dirty_enqueue_of_def dirty_card_queue_enqueue_def
      shared_dirty_card_queue_enqueue_def Let_def split_beta)

lemma dirty_lock_of_obs:
  "dirty_queue (dirty_lock_of s thr s1) = dirty_queue s1"
  "dirty_records (dirty_lock_of s thr s1) = dirty_records s1"
  "card_at (dirty_lock_of s thr s1) = card_at s1"
  "needs_dirty (dirty_lock_of s thr s1) = needs_dirty s1"
  "card_table (dirty_lock_of s thr s1) = card_table s1"
  "same_but_dirty s1 (dirty_lock_of s thr s1)"
  "sync_trace (dirty_lock_of s thr s1) =
     sync_trace s1 @ (if is_Java_thread (threads s thr) then []
                      else [mutex_locked Shared_DirtyCardQ_lock])"
  by (simp_all add: dirty_lock_of_def MutexLockerEx_lock_obs same_but_dirty_refl)

lemma dirty_unlock_of_obs:
  "dirty_queue (dirty_unlock_of s thr s1) = dirty_queue s1"
  "dirty_records (dirty_unlock_of s thr s1) = dirty_records s1"
  "card_at (dirty_unlock_of s thr s1) = card_at s1"
  "needs_dirty (dirty_unlock_of s thr s1) = needs_dirty s1"
  "card_table (dirty_unlock_of s thr s1) = card_table s1"
  "same_but_dirty s1 (dirty_unlock_of s thr s1)"
  "sync_trace (dirty_unlock_of s thr s1) =
     sync_trace s1 @ (if is_Java_thread (threads s thr) then []
                      else [mutex_unlocked Shared_DirtyCardQ_lock])"
  by (simp_all add: dirty_unlock_of_def MutexLockerEx_unlock_obs same_but_dirty_refl)

lemma locked_dirty_enqueue_of_frame:
  "same_but_dirty s1 (locked_dirty_enqueue_of s thr x s1)"
  "card_table (locked_dirty_enqueue_of s thr x s1) = card_table s1"
  unfolding locked_dirty_enqueue_of_def
  by (blast intro: same_but_dirty_trans dirty_lock_of_obs(6) dirty_unlock_of_obs(6)
      dirty_enqueue_of_frame(1))
    (simp add: dirty_unlock_of_obs dirty_lock_of_obs dirty_enqueue_of_frame(2))

lemma locked_dirty_enqueue_of_target:
  "buf (dirty_queue (locked_dirty_enqueue_of s thr x s1) (queue_of s thr)) \<noteq> [] \<and>
   last (buf (dirty_queue (locked_dirty_enqueue_of s thr x s1) (queue_of s thr))) = x \<and>
   dirty_records (locked_dirty_enqueue_of s thr x s1) (queue_of s thr) =
     dirty_records s1 (queue_of s thr) @ [x] \<and>
   (\<forall>b. b \<noteq> queue_of s thr \<longrightarrow>
      dirty_queue (locked_dirty_enqueue_of s thr x s1) b = dirty_queue s1 b)"
  using dirty_enqueue_of_target[of s thr x "dirty_lock_of s thr s1"]
  by (simp add: locked_dirty_enqueue_of_def dirty_unlock_of_obs dirty_lock_of_obs)

lemmas example_defs = example_vm_def example_thread_def example_card_table_def

lemma enqueue_active:
  "all_active (satb_mark_queue_set s) \<Longrightarrow> debug_build s \<longrightarrow> is_oop s r \<Longrightarrow>
   enqueue thr r s =
     Inr (if is_Java_thread (threads s thr) then satb_mark_queue_enqueue thr r s
          else locked_shared_satb_queue_enqueue r s)"
  by (auto simp: enqueue_def locked_shared_satb_queue_enqueue_def)

lemma enqueue_inactive:
  "\<not> all_active (satb_mark_queue_set s) \<Longrightarrow> debug_build s \<longrightarrow> is_oop s r \<Longrightarrow>
   enqueue thr r s = Inr s"
  by (auto simp: enqueue_def)

lemma enqueue_frame: "enqueue thr r s = Inr s' \<Longrightarrow> same_but_satb s s'"
  using locked_shared_satb_queue_enqueue_frame[of s r]
  by (auto simp: enqueue_def same_but_satb_refl satb_mark_queue_enqueue_frame
      locked_shared_satb_queue_enqueue_def split: if_splits)

lemma enqueue_checks_oop: "enqueue thr r s = Inr s' \<Longrightarrow> debug_build s \<longrightarrow> is_oop s r"
  by (auto simp: enqueue_def split: if_splits)

subsection \<open>The SATB pre-write barrier\<close>

text \<open>
  Claim C1. For a reference \<open>r\<close> that is non-null and valid, \<^verbatim>\<open>enqueue\<close> returns. When
  the SATB queue set is active, \<open>r\<close> is the newest record of the buffer of the calling
  thread (its own queue for a Java thread, the shared queue otherwise), the records
  held for that buffer are those from before followed by \<open>r\<close>, and no other SATB
  buffer, no dirty card buffer and no card changes. When the set is inactive the
  state does not change at all.
\<close>

theorem enqueue_appends_iff_active:
  assumes "is_oop s r"
  shows "\<exists>s'. enqueue thr r s = Inr s' \<and>
           (if all_active (satb_mark_queue_set s)
            then buf (satb_queue s' (queue_of s thr)) \<noteq> [] \<and>
                 last (buf (satb_queue s' (queue_of s thr))) = r \<and>
                 satb_records s' (queue_of s thr) = satb_records s (queue_of s thr) @ [r] \<and>
                 (\<forall>b. b \<noteq> queue_of s thr \<longrightarrow> satb_queue s' b = satb_queue s b) \<and>
                 (\<forall>b. dirty_queue s' b = dirty_queue s b) \<and> dcqs s' = dcqs s \<and>
                 card_table s' = card_table s
            else s' = s)"
proof (cases "all_active (satb_mark_queue_set s)")
  case False
  with assms show ?thesis by (simp add: enqueue_inactive)
next
  case True
  show ?thesis
  proof (cases "is_Java_thread (threads s thr)")
    case java: True
    have "enqueue thr r s = Inr (satb_mark_queue_enqueue thr r s)"
      using True assms java by (simp add: enqueue_active)
    moreover have "same_but_satb s (satb_mark_queue_enqueue thr r s)"
      by (rule satb_mark_queue_enqueue_frame)
    ultimately show ?thesis
      using True java satb_mark_queue_enqueue_target[of thr r s]
      by (simp add: queue_of_def same_but_satb_def)
  next
    case other: False
    have "enqueue thr r s = Inr (locked_shared_satb_queue_enqueue r s)"
      using True assms other by (simp add: enqueue_active)
    moreover have "same_but_satb s (locked_shared_satb_queue_enqueue r s)"
      by (rule locked_shared_satb_queue_enqueue_frame)
    ultimately show ?thesis
      using True other locked_shared_satb_queue_enqueue_target[of r s]
      by (simp add: queue_of_def same_but_satb_def)
  qed
qed

theorem enqueue_appends_iff_active_witness:
  "is_oop (example_vm True True) 7 \<and>
   (\<exists>s'. enqueue 0 7 (example_vm True True) = Inr s' \<and>
      satb_records s' (thread_queue 0) = [7] \<and>
      satb_queue s' shared_q = satb_queue (example_vm True True) shared_q) \<and>
   is_oop (example_vm True False) 7 \<and>
   enqueue 0 7 (example_vm True False) = Inr (example_vm True False)"
  using enqueue_appends_iff_active[of "example_vm True True" 7 0]
    enqueue_appends_iff_active[of "example_vm True False" 7 0]
  by (auto simp: example_defs is_oop_def NULL_def queue_of_def satb_records_def satb_queue_def)

text \<open>
  Claim C6. With \<^verbatim>\<open>dest_uninitialized\<close> true the array pre-write barrier returns the
  state it was given, for every destination, count, slot content and activity of the
  queue set: no buffer changes, and the trace of slot reads \<open>oop_loads\<close> does not grow.
\<close>

theorem write_ref_array_pre_uninitialized:
  "write_ref_array_pre C mem thr dst n True s = Inr s"
  by (simp add: write_ref_array_pre_def)

text \<open>
  Claim C10. With \<^verbatim>\<open>dest_uninitialized\<close> false and the SATB queue set inactive, the
  array pre-write barrier returns the state it was given, for every count: no buffer
  changes, and the trace of slot reads \<open>oop_loads\<close> does not grow.
\<close>

theorem write_ref_array_pre_inactive:
  "\<not> all_active (satb_mark_queue_set s) \<Longrightarrow>
   write_ref_array_pre C mem thr dst count False s = Inr s"
  by (simp add: write_ref_array_pre_def write_ref_array_pre_work_def)

theorem write_ref_array_pre_inactive_witness:
  "\<not> all_active (satb_mark_queue_set (example_vm True False)) \<and>
   write_ref_array_pre oop_CompressedOops example_slots 0 5 3 False (example_vm True False)
     = Inr (example_vm True False) \<and>
   oop_loads (example_vm True False) = []"
  using write_ref_array_pre_inactive[of "example_vm True False" oop_CompressedOops example_slots
      0 5 3]
  by (simp add: example_defs)

subsection \<open>Thread attach and detach\<close>

text \<open>
  Claim C7. For a thread that meets the precondition of \<^verbatim>\<open>on_thread_attach\<close> (not at a
  safepoint, its SATB queue inactive and empty, its dirty card queue active) the call
  returns; afterwards the thread's SATB queue is active exactly when the SATB queue set
  is active, and it is still empty. Nothing else changes in any queue.
\<close>

theorem on_thread_attach_activates:
  assumes "\<not> at_safepoint s"
    and "\<not> active (satb_mark_queue (threads s thread))"
    and "PtrQueue_is_empty (satb_mark_queue (threads s thread))"
    and "active (dirty_card_queue (threads s thread))"
  shows "\<exists>s'. on_thread_attach thread s = Inr s' \<and>
           active (satb_mark_queue (threads s' thread)) = all_active (satb_mark_queue_set s) \<and>
           PtrQueue_is_empty (satb_mark_queue (threads s' thread)) \<and>
           satb_mark_queue_set s' = satb_mark_queue_set s \<and>
           (\<forall>b. b \<noteq> thread_queue thread \<longrightarrow> satb_queue s' b = satb_queue s b) \<and>
           (\<forall>b. dirty_queue s' b = dirty_queue s b) \<and> dcqs s' = dcqs s"
  using assms
  by (simp add: on_thread_attach_def set_active_def PtrQueue_is_empty_def satb_queue_def
      dirty_queue_def split: queue_id.splits)

theorem on_thread_attach_activates_witness:
  "\<not> at_safepoint (example_vm True True) \<and>
   \<not> active (satb_mark_queue (threads (example_vm True True) 0)) \<and>
   PtrQueue_is_empty (satb_mark_queue (threads (example_vm True True) 0)) \<and>
   active (dirty_card_queue (threads (example_vm True True) 0)) \<and>
   (\<exists>s'. on_thread_attach 0 (example_vm True True) = Inr s' \<and>
      active (satb_mark_queue (threads s' 0)) \<and> buf (satb_mark_queue (threads s' 0)) = []) \<and>
   (\<exists>s'. on_thread_attach 0 (example_vm True False) = Inr s' \<and>
      \<not> active (satb_mark_queue (threads s' 0)) \<and> buf (satb_mark_queue (threads s' 0)) = [])"
  using on_thread_attach_activates[of "example_vm True True" 0]
    on_thread_attach_activates[of "example_vm True False" 0]
  by (auto simp: example_defs PtrQueue_is_empty_def)

lemma PtrQueue_flush_props:
  "buf (fst (PtrQueue_flush (q, qs))) = []"
  "active (fst (PtrQueue_flush (q, qs))) = active q"
  "concat (completed_buffers (snd (PtrQueue_flush (q, qs)))) = concat (completed_buffers qs) @ buf q"
  "all_active (snd (PtrQueue_flush (q, qs))) = all_active qs"
  "shared_queue (snd (PtrQueue_flush (q, qs))) = shared_queue qs"
  "buffer_size (snd (PtrQueue_flush (q, qs))) = buffer_size qs"
  "set (completed_buffers (snd (PtrQueue_flush (q, qs))))
     \<subseteq> insert (buf q) (set (completed_buffers qs))"
  by (auto simp: PtrQueue_flush_def)

text \<open>
  Claim C8. After \<^verbatim>\<open>on_thread_detach\<close> the thread's SATB queue and its dirty card queue
  are empty, and the records of the completed buffers of each set are those from before
  followed by the records the thread's queue held: all of them, in order.
\<close>

theorem on_thread_detach_flushes:
  "buf (satb_mark_queue (threads (on_thread_detach thread s) thread)) = [] \<and>
   buf (dirty_card_queue (threads (on_thread_detach thread s) thread)) = [] \<and>
   concat (completed_buffers (satb_mark_queue_set (on_thread_detach thread s))) =
     concat (completed_buffers (satb_mark_queue_set s)) @ buf (satb_mark_queue (threads s thread)) \<and>
   concat (completed_buffers (dcqs (on_thread_detach thread s))) =
     concat (completed_buffers (dcqs s)) @ buf (dirty_card_queue (threads s thread))"
  by (simp add: on_thread_detach_def CardTableBarrierSet_on_thread_detach_def
      satb_mark_queue_flush_def dirty_card_queue_flush_def Let_def split_beta
      PtrQueue_flush_props(1-6))

subsection \<open>The post-write barrier\<close>

lemma write_ref_field_post_slow_not_dirty:
  "debug_build s \<longrightarrow> card_at s byte \<noteq> g1_young_card_val (card_table s) \<Longrightarrow>
   card_at s byte \<noteq> dirty_card_val (card_table s) \<Longrightarrow>
   write_ref_field_post_slow thr byte s =
     Inr (locked_dirty_enqueue_of s thr byte (store_card byte (dirty_card_val (card_table s)) s))"
  by (auto simp: write_ref_field_post_slow_def Let_def locked_dirty_enqueue_of_def
      dirty_enqueue_of_def dirty_lock_of_def dirty_unlock_of_def store_card_queues)

lemma write_ref_field_post_slow_dirty:
  "debug_build s \<longrightarrow> card_at s byte \<noteq> g1_young_card_val (card_table s) \<Longrightarrow>
   card_at s byte = dirty_card_val (card_table s) \<Longrightarrow>
   write_ref_field_post_slow thr byte s = Inr s"
  by (auto simp: write_ref_field_post_slow_def)

lemma card_at_same_table: "card_table s' = card_table s \<Longrightarrow> card_at s' c = card_at s c"
  by (simp add: card_at_def)

lemma dirtied_state:
  fixes s thr byte
  defines "s1 \<equiv> locked_dirty_enqueue_of s thr byte (store_card byte (dirty_card_val (card_table s)) s)"
  shows "same_but_dirty s s1"
    and "card_at s1 c = (if c = byte then dirty_card_val (card_table s) else card_at s c)"
    and "buf (dirty_queue s1 (queue_of s thr)) \<noteq> []"
    and "last (buf (dirty_queue s1 (queue_of s thr))) = byte"
    and "dirty_records s1 (queue_of s thr) = dirty_records s (queue_of s thr) @ [byte]"
    and "b \<noteq> queue_of s thr \<Longrightarrow> dirty_queue s1 b = dirty_queue s b"
proof -
  let ?s0 = "store_card byte (dirty_card_val (card_table s)) s"
  show "same_but_dirty s s1"
    unfolding s1_def
    by (rule same_but_dirty_trans[OF store_card_frame locked_dirty_enqueue_of_frame(1)])
  show "card_at s1 c = (if c = byte then dirty_card_val (card_table s) else card_at s c)"
    unfolding s1_def
    by (simp add: card_at_same_table[OF locked_dirty_enqueue_of_frame(2)] card_at_store_card)
  show "buf (dirty_queue s1 (queue_of s thr)) \<noteq> []"
    and "last (buf (dirty_queue s1 (queue_of s thr))) = byte"
    and "dirty_records s1 (queue_of s thr) = dirty_records s (queue_of s thr) @ [byte]"
    and "b \<noteq> queue_of s thr \<Longrightarrow> dirty_queue s1 b = dirty_queue s b"
    unfolding s1_def using locked_dirty_enqueue_of_target[of s thr byte ?s0]
    by (simp_all add: store_card_queues)
qed

text \<open>
  Claim C3. For a card that is not young (and with the young and the dirty value
  distinct), the slow path of the post-write barrier returns, and the card is dirty
  afterwards. When the card was not dirty before, its address is the newest record of
  the dirty card buffer of the calling thread, the records held for that buffer are
  those from before followed by the address, and no other dirty card buffer and no
  other card changes; when the card was dirty already, the state does not change. A
  further call on the resulting state returns that same state: the card stays dirty
  and no buffer grows.
\<close>

theorem write_ref_field_post_slow_idempotent:
  assumes "card_at s byte \<noteq> g1_young_card_val (card_table s)"
    and "g1_young_card_val (card_table s) \<noteq> dirty_card_val (card_table s)"
  shows "\<exists>s'. write_ref_field_post_slow thr byte s = Inr s' \<and>
           card_at s' byte = dirty_card_val (card_table s) \<and>
           (if card_at s byte \<noteq> dirty_card_val (card_table s)
            then buf (dirty_queue s' (queue_of s thr)) \<noteq> [] \<and>
                 last (buf (dirty_queue s' (queue_of s thr))) = byte \<and>
                 dirty_records s' (queue_of s thr) = dirty_records s (queue_of s thr) @ [byte] \<and>
                 (\<forall>b. b \<noteq> queue_of s thr \<longrightarrow> dirty_queue s' b = dirty_queue s b) \<and>
                 (\<forall>c. c \<noteq> byte \<longrightarrow> card_at s' c = card_at s c)
            else s' = s) \<and>
           write_ref_field_post_slow thr byte s' = Inr s'"
proof (cases "card_at s byte = dirty_card_val (card_table s)")
  case True
  with assms show ?thesis by (simp add: write_ref_field_post_slow_dirty)
next
  case False
  let ?s1 = "locked_dirty_enqueue_of s thr byte (store_card byte (dirty_card_val (card_table s)) s)"
  have run: "write_ref_field_post_slow thr byte s = Inr ?s1"
    using assms(1) False by (simp add: write_ref_field_post_slow_not_dirty)
  have frame: "same_but_dirty s ?s1" by (rule dirtied_state(1))
  have card: "card_at ?s1 c = (if c = byte then dirty_card_val (card_table s) else card_at s c)" for c
    by (rule dirtied_state(2))
  have again: "write_ref_field_post_slow thr byte ?s1 = Inr ?s1"
    using frame card[of byte] assms(2)
    by (intro write_ref_field_post_slow_dirty) (simp_all add: same_but_dirty_def)
  show ?thesis
    using run again False card dirtied_state(3-6)[where s=s and thr=thr and byte=byte]
    by simp
qed

theorem write_ref_field_post_slow_idempotent_witness:
  "card_at (example_vm True True) 5 \<noteq> g1_young_card_val (card_table (example_vm True True)) \<and>
   g1_young_card_val (card_table (example_vm True True))
     \<noteq> dirty_card_val (card_table (example_vm True True)) \<and>
   (\<exists>s'. write_ref_field_post_slow 0 5 (example_vm True True) = Inr s' \<and>
      card_at s' 5 = 0 \<and> dirty_records s' (thread_queue 0) = [5] \<and>
      write_ref_field_post_slow 0 5 s' = Inr s')"
  using write_ref_field_post_slow_idempotent[of "example_vm True True" 5 0]
  by (auto simp: example_defs card_at_def queue_of_def dirty_records_def dirty_queue_def)

subsection \<open>Invalidating a region\<close>

lemma needs_dirty_frame:
  "same_but_dirty s s' \<Longrightarrow> card_at s' c = card_at s c \<Longrightarrow> needs_dirty s' c = needs_dirty s c"
  by (simp add: needs_dirty_def same_but_dirty_def)

lemma skip_young_props:
  "byte \<le> skip_young s byte last_byte \<and>
   (\<forall>c. byte \<le> c \<and> c < skip_young s byte last_byte \<longrightarrow>
      c \<le> last_byte \<and> card_at s c = g1_young_card_val (card_table s)) \<and>
   (skip_young s byte last_byte \<le> last_byte \<longrightarrow>
      card_at s (skip_young s byte last_byte) \<noteq> g1_young_card_val (card_table s))"
proof (induction s byte last_byte rule: skip_young.induct)
  case (1 s byte last_byte)
  show ?case
  proof (cases "byte \<le> last_byte \<and> card_at s byte = g1_young_card_val (card_table s)")
    case False
    then show ?thesis by (subst (1 2 3 4) skip_young.simps) auto
  next
    case True
    have eq: "skip_young s byte last_byte = skip_young s (Suc byte) last_byte"
      using True by (subst skip_young.simps) simp
    have ih: "Suc byte \<le> skip_young s (Suc byte) last_byte"
      "\<And>c. Suc byte \<le> c \<Longrightarrow> c < skip_young s (Suc byte) last_byte \<Longrightarrow>
         c \<le> last_byte \<and> card_at s c = g1_young_card_val (card_table s)"
      "skip_young s (Suc byte) last_byte \<le> last_byte \<Longrightarrow>
         card_at s (skip_young s (Suc byte) last_byte) \<noteq> g1_young_card_val (card_table s)"
      using "1.IH"[OF True] by auto
    have "c \<le> last_byte \<and> card_at s c = g1_young_card_val (card_table s)"
      if "byte \<le> c" "c < skip_young s (Suc byte) last_byte" for c
    proof (cases "c = byte")
      case True
      with \<open>byte \<le> last_byte \<and> _\<close> show ?thesis by simp
    next
      case False
      with that have "Suc byte \<le> c" by simp
      with that ih(2) show ?thesis by blast
    qed
    with ih(1,3) show ?thesis unfolding eq by auto
  qed
qed

lemma invalidate_loop_char:
  assumes enq: "\<And>b s. same_but_dirty s (enq b s)"
    "\<And>b s. card_table (enq b s) = card_table s"
    "\<And>b s. dirty_records (enq b s) q = dirty_records s q @ [b]"
    "\<And>b s b'. b' \<noteq> q \<Longrightarrow> dirty_queue (enq b s) b' = dirty_queue s b'"
  shows "same_but_dirty s (invalidate_loop enq byte last_byte s) \<and>
     (\<forall>c. card_at (invalidate_loop enq byte last_byte s) c =
        (if byte \<le> c \<and> c \<le> last_byte \<and> needs_dirty s c
         then dirty_card_val (card_table s) else card_at s c)) \<and>
     dirty_records (invalidate_loop enq byte last_byte s) q =
       dirty_records s q @ filter (needs_dirty s) [byte..<Suc last_byte] \<and>
     (\<forall>b'. b' \<noteq> q \<longrightarrow>
        dirty_queue (invalidate_loop enq byte last_byte s) b' = dirty_queue s b')"
  using enq
proof (induction enq byte last_byte s rule: invalidate_loop.induct)
  case (1 enq byte last_byte s)
  note enq = "1.prems"
  show ?case
  proof (cases "byte \<le> last_byte")
    case False
    then show ?thesis
      by (subst (1 2 3 4) invalidate_loop.simps) (auto simp: same_but_dirty_refl)
  next
    case le: True
    then have upt: "[byte..<Suc last_byte] = byte # [Suc byte..<Suc last_byte]"
      by (simp add: upt_conv_Cons)
    show ?thesis
    proof (cases "needs_dirty s byte")
      case False
      then have eq: "invalidate_loop enq byte last_byte s
                       = invalidate_loop enq (Suc byte) last_byte s"
        using le by (subst invalidate_loop.simps) (auto simp: needs_dirty_def)
      have ih: "same_but_dirty s (invalidate_loop enq (Suc byte) last_byte s) \<and>
         (\<forall>c. card_at (invalidate_loop enq (Suc byte) last_byte s) c =
            (if Suc byte \<le> c \<and> c \<le> last_byte \<and> needs_dirty s c
             then dirty_card_val (card_table s) else card_at s c)) \<and>
         dirty_records (invalidate_loop enq (Suc byte) last_byte s) q =
           dirty_records s q @ filter (needs_dirty s) [Suc byte..<Suc last_byte] \<and>
         (\<forall>b'. b' \<noteq> q \<longrightarrow>
            dirty_queue (invalidate_loop enq (Suc byte) last_byte s) b' = dirty_queue s b')"
      proof (cases "card_at s byte = g1_young_card_val (card_table s)")
        case True
        from "1.IH"(1)[OF le True enq] show ?thesis .
      next
        case ny: False
        with False have d: "\<not> card_at s byte \<noteq> dirty_card_val (card_table s)"
          by (simp add: needs_dirty_def)
        from "1.IH"(3)[OF le ny d enq] show ?thesis .
      qed
      have "Suc byte \<le> c \<and> c \<le> last_byte \<and> needs_dirty s c
              \<longleftrightarrow> byte \<le> c \<and> c \<le> last_byte \<and> needs_dirty s c" for c
        using False by (cases "c = byte") auto
      with ih show ?thesis unfolding eq upt using False by (simp del: upt_Suc)
    next
      case nd: True
      let ?s1 = "enq byte (store_card byte (dirty_card_val (card_table s)) s)"
      have ny: "card_at s byte \<noteq> g1_young_card_val (card_table s)"
        and ndirty: "card_at s byte \<noteq> dirty_card_val (card_table s)"
        using nd by (simp_all add: needs_dirty_def)
      have eq: "invalidate_loop enq byte last_byte s
                  = invalidate_loop enq (Suc byte) last_byte ?s1"
        using le ny ndirty by (subst invalidate_loop.simps) simp
      have frame1: "same_but_dirty s ?s1"
        by (rule same_but_dirty_trans[OF store_card_frame enq(1)])
      have card1: "card_at ?s1 c = (if c = byte then dirty_card_val (card_table s) else card_at s c)"
        for c
        by (simp add: card_at_same_table[OF enq(2)] card_at_store_card)
      have dv: "dirty_card_val (card_table ?s1) = dirty_card_val (card_table s)"
        using frame1 by (simp add: same_but_dirty_def)
      have nd1: "needs_dirty ?s1 c = (c \<noteq> byte \<and> needs_dirty s c)" for c
        using frame1 card1[of c] nd
        by (auto simp: needs_dirty_def same_but_dirty_def)
      have rec1: "dirty_records ?s1 q = dirty_records s q @ [byte]"
        by (simp add: enq(3) store_card_queues)
      have oth1: "b' \<noteq> q \<Longrightarrow> dirty_queue ?s1 b' = dirty_queue s b'" for b'
        by (simp add: enq(4) store_card_queues)
      have filt: "filter (needs_dirty ?s1) [Suc byte..<Suc last_byte]
                    = filter (needs_dirty s) [Suc byte..<Suc last_byte]"
        by (rule filter_cong) (auto simp: nd1)
      note ih = "1.IH"(2)[OF le ny ndirty enq]
      have "same_but_dirty s (invalidate_loop enq (Suc byte) last_byte ?s1)"
        using ih frame1 by (blast intro: same_but_dirty_trans)
      moreover have "card_at (invalidate_loop enq (Suc byte) last_byte ?s1) c =
          (if byte \<le> c \<and> c \<le> last_byte \<and> needs_dirty s c
           then dirty_card_val (card_table s) else card_at s c)" for c
        using ih nd le by (cases "c = byte") (auto simp: dv nd1 card1)
      moreover have "dirty_records (invalidate_loop enq (Suc byte) last_byte ?s1) q =
          dirty_records s q @ filter (needs_dirty s) [byte..<Suc last_byte]"
        using ih nd by (simp add: upt rec1 filt del: upt_Suc)
      moreover have "b' \<noteq> q \<Longrightarrow>
          dirty_queue (invalidate_loop enq (Suc byte) last_byte ?s1) b' = dirty_queue s b'" for b'
        using ih oth1 by simp
      ultimately show ?thesis unfolding eq by simp
    qed
  qed
qed

lemma invalidate_loop_invariant:
  assumes "P s"
    and "\<And>b x. P x \<Longrightarrow> P (enq b (store_card b (dirty_card_val (card_table x)) x))"
  shows "P (invalidate_loop enq byte last_byte s)"
  using assms
proof (induction enq byte last_byte s rule: invalidate_loop.induct)
  case (1 enq byte last_byte s)
  note step = "1.prems"(2)
  show ?case
  proof (cases "byte \<le> last_byte")
    case False
    with "1.prems"(1) show ?thesis by (subst invalidate_loop.simps) simp
  next
    case le: True
    show ?thesis
    proof (cases "card_at s byte = g1_young_card_val (card_table s)")
      case True
      from "1.IH"(1)[OF le True "1.prems"(1) step] le True
      show ?thesis by (subst invalidate_loop.simps) simp
    next
      case ny: False
      show ?thesis
      proof (cases "card_at s byte \<noteq> dirty_card_val (card_table s)")
        case True
        from "1.IH"(2)[OF le ny True step[OF "1.prems"(1)] step] le ny True
        show ?thesis by (subst invalidate_loop.simps) simp
      next
        case False
        from "1.IH"(3)[OF le ny False "1.prems"(1) step] le ny False
        show ?thesis by (subst invalidate_loop.simps) simp
      qed
    qed
  qed
qed

lemma invalidate_loop_trace:
  assumes "\<And>b x. dirty_records (enq b x) q = dirty_records x q @ [b]"
    and "\<And>b x. sync_trace (enq b x) = sync_trace x @ tr b"
  shows "\<exists>ys. dirty_records (invalidate_loop enq byte last_byte s) q = dirty_records s q @ ys \<and>
           sync_trace (invalidate_loop enq byte last_byte s) = sync_trace s @ concat (map tr ys)"
proof (rule invalidate_loop_invariant)
  show "\<exists>ys. dirty_records s q = dirty_records s q @ ys \<and>
          sync_trace s = sync_trace s @ concat (map tr ys)"
    by (rule exI[of _ "[]"]) simp
next
  fix b x
  assume "\<exists>ys. dirty_records x q = dirty_records s q @ ys \<and>
            sync_trace x = sync_trace s @ concat (map tr ys)"
  then obtain ys where "dirty_records x q = dirty_records s q @ ys"
    and "sync_trace x = sync_trace s @ concat (map tr ys)" by blast
  then show "\<exists>ys. dirty_records (enq b (store_card b (dirty_card_val (card_table x)) x)) q
                  = dirty_records s q @ ys \<and>
               sync_trace (enq b (store_card b (dirty_card_val (card_table x)) x))
                  = sync_trace s @ concat (map tr ys)"
    by (intro exI[of _ "ys @ [b]"]) (simp add: assms store_card_queues)
qed

lemma invalidate_unfold:
  "\<not> mr_is_empty mr \<Longrightarrow>
   invalidate thr mr s =
     (if skip_young s (first_card s mr) (last_card s mr) \<le> last_card s mr
      then dirty_unlock_of s thr
             (invalidate_loop (dirty_enqueue_of s thr)
                (skip_young s (first_card s mr) (last_card s mr)) (last_card s mr)
                (dirty_lock_of s thr s))
      else s)"
  by (simp add: invalidate_def Let_def dirty_enqueue_of_def dirty_lock_of_def
      dirty_unlock_of_def first_card_def last_card_def)

lemma filter_needs_dirty_young:
  "\<forall>c \<in> set cs. card_at s c = g1_young_card_val (card_table s) \<Longrightarrow>
   filter (needs_dirty s) cs = []"
  by (induction cs) (auto simp: needs_dirty_def)

lemma invalidate_char:
  assumes ne: "\<not> mr_is_empty mr"
  shows "same_but_dirty s (invalidate thr mr s) \<and>
     (\<forall>c. card_at (invalidate thr mr s) c =
        (if first_card s mr \<le> c \<and> c \<le> last_card s mr \<and> needs_dirty s c
         then dirty_card_val (card_table s) else card_at s c)) \<and>
     dirty_records (invalidate thr mr s) (queue_of s thr) =
       dirty_records s (queue_of s thr)
         @ filter (needs_dirty s) [first_card s mr..<Suc (last_card s mr)] \<and>
     (\<forall>b'. b' \<noteq> queue_of s thr \<longrightarrow>
        dirty_queue (invalidate thr mr s) b' = dirty_queue s b')"
proof -
  let ?f = "first_card s mr" and ?l = "last_card s mr"
  let ?r = "skip_young s ?f ?l"
  have r1: "?f \<le> ?r"
    and r2: "\<And>c. ?f \<le> c \<Longrightarrow> c < ?r \<Longrightarrow>
               c \<le> ?l \<and> card_at s c = g1_young_card_val (card_table s)"
    using skip_young_props[of ?f s ?l] by auto
  have young: "\<not> needs_dirty s c" if "?f \<le> c" "c < ?r" for c
    using r2[OF that] by (simp add: needs_dirty_def)
  show ?thesis
  proof (cases "?r \<le> ?l")
    case False
    then have same: "invalidate thr mr s = s"
      using ne by (simp add: invalidate_unfold)
    have "filter (needs_dirty s) [?f..<Suc ?l] = []"
      using False by (intro filter_needs_dirty_young) (auto dest: r2)
    moreover have "\<not> (?f \<le> c \<and> c \<le> ?l \<and> needs_dirty s c)" for c
      using False young[of c] by auto
    ultimately show ?thesis
      unfolding same by (auto simp: same_but_dirty_refl simp del: upt_Suc)
  next
    case True
    let ?s0 = "dirty_lock_of s thr s"
    have run: "invalidate thr mr s
                 = dirty_unlock_of s thr (invalidate_loop (dirty_enqueue_of s thr) ?r ?l ?s0)"
      using True ne by (simp add: invalidate_unfold)
    note loop = invalidate_loop_char[where enq = "dirty_enqueue_of s thr"
        and q = "queue_of s thr" and s = ?s0 and byte = ?r and last_byte = ?l,
        OF dirty_enqueue_of_frame(1) dirty_enqueue_of_frame(2)]
    have tgt: "dirty_records (dirty_enqueue_of s thr b s1) (queue_of s thr)
                 = dirty_records s1 (queue_of s thr) @ [b]"
      "b' \<noteq> queue_of s thr \<Longrightarrow> dirty_queue (dirty_enqueue_of s thr b s1) b' = dirty_queue s1 b'"
      for b s1 b'
      using dirty_enqueue_of_target[of s thr b s1] by simp_all
    note loop' = loop[OF tgt]
    have split: "[?f..<Suc ?l] = [?f..<?r] @ [?r..<Suc ?l]"
      using r1 True by (metis le_SucI upt_add_eq_append le_Suc_ex)
    have pre: "filter (needs_dirty s) [?f..<?r] = []"
      by (intro filter_needs_dirty_young) (auto dest: r2)
    have cond: "(?r \<le> c \<and> c \<le> ?l \<and> needs_dirty s c)
                  = (?f \<le> c \<and> c \<le> ?l \<and> needs_dirty s c)" for c
    proof (cases "c < ?r")
      case True
      then show ?thesis using young[of c] by auto
    next
      case False
      then show ?thesis using r1 by auto
    qed
    have frame: "same_but_dirty s
        (dirty_unlock_of s thr (invalidate_loop (dirty_enqueue_of s thr) ?r ?l ?s0))"
      using conjunct1[OF loop']
      by (blast intro: same_but_dirty_trans dirty_lock_of_obs(6) dirty_unlock_of_obs(6))
    show ?thesis
      unfolding run using loop' frame
      by (simp add: cond split pre dirty_lock_of_obs dirty_unlock_of_obs del: upt_Suc)
  qed
qed

lemma concat_map_Nil: "concat (map (\<lambda>b. []) ys) = []"
  by (induction ys) simp_all

lemma invalidate_trace:
  assumes ne: "\<not> mr_is_empty mr"
  shows "sync_trace (invalidate thr mr s) =
     sync_trace s @
       (if last_card s mr < skip_young s (first_card s mr) (last_card s mr) then []
        else locked_dirty_events s thr
               (filter (needs_dirty s) [first_card s mr..<Suc (last_card s mr)]))"
proof -
  let ?f = "first_card s mr" and ?l = "last_card s mr"
  let ?r = "skip_young s ?f ?l"
  show ?thesis
  proof (cases "?r \<le> ?l")
    case False
    then show ?thesis using ne by (simp add: invalidate_unfold)
  next
    case True
    let ?s0 = "dirty_lock_of s thr s"
    let ?sf = "invalidate_loop (dirty_enqueue_of s thr) ?r ?l ?s0"
    let ?tr = "\<lambda>b. if is_Java_thread (threads s thr) then []
                    else [shared_dirty_card_enqueued b]"
    have run: "invalidate thr mr s = dirty_unlock_of s thr ?sf"
      using True ne by (simp add: invalidate_unfold)
    have tgt: "dirty_records (dirty_enqueue_of s thr b x) (queue_of s thr)
                 = dirty_records x (queue_of s thr) @ [b]" for b x
      using dirty_enqueue_of_target[of s thr b x] by simp
    from invalidate_loop_trace[of "dirty_enqueue_of s thr" "queue_of s thr" ?tr ?r ?l ?s0,
        OF tgt dirty_enqueue_of_trace]
    obtain ys where recs: "dirty_records ?sf (queue_of s thr) = dirty_records ?s0 (queue_of s thr) @ ys"
      and trc: "sync_trace ?sf = sync_trace ?s0 @ concat (map ?tr ys)" by blast
    have "dirty_records (dirty_unlock_of s thr ?sf) (queue_of s thr)
            = dirty_records s (queue_of s thr) @ filter (needs_dirty s) [?f..<Suc ?l]"
      using invalidate_char[OF ne, of s thr] unfolding run by simp
    then have ys: "ys = filter (needs_dirty s) [?f..<Suc ?l]"
      using recs by (simp add: dirty_unlock_of_obs dirty_lock_of_obs)
    show ?thesis
    proof (cases "is_Java_thread (threads s thr)")
      case java: True
      then show ?thesis
        unfolding run using True trc
        by (simp add: dirty_unlock_of_obs dirty_lock_of_obs locked_dirty_events_def
            concat_map_Nil del: upt_Suc)
    next
      case other: False
      then show ?thesis
        unfolding run using True trc
        by (simp add: dirty_unlock_of_obs dirty_lock_of_obs locked_dirty_events_def ys
            del: upt_Suc)
    qed
  qed
qed

lemma skip_young_prefix:
  assumes "clean_card_val (card_table s) \<noteq> g1_young_card_val (card_table s)"
    and "f \<le> mid"
    and young: "\<forall>c. f \<le> c \<and> c < mid \<longrightarrow> card_at s c = g1_young_card_val (card_table s)"
    and clean: "\<forall>c. mid \<le> c \<and> c \<le> l \<longrightarrow> card_at s c = clean_card_val (card_table s)"
  shows "(l < skip_young s f l) = (l < mid)"
proof -
  let ?r = "skip_young s f l"
  have r1: "f \<le> ?r"
    and r2: "\<And>c. f \<le> c \<Longrightarrow> c < ?r \<Longrightarrow> card_at s c = g1_young_card_val (card_table s)"
    and r3: "?r \<le> l \<Longrightarrow> card_at s ?r \<noteq> g1_young_card_val (card_table s)"
    using skip_young_props[of f s l] by auto
  show ?thesis
  proof
    assume a: "l < ?r"
    show "l < mid"
    proof (rule ccontr)
      assume "\<not> l < mid"
      then have "mid \<le> l" by simp
      with clean have "card_at s mid = clean_card_val (card_table s)" by simp
      moreover have "card_at s mid = g1_young_card_val (card_table s)"
        using r2[of mid] assms(2) a \<open>mid \<le> l\<close> by simp
      ultimately show False using assms(1) by simp
    qed
  next
    assume a: "l < mid"
    show "l < ?r"
    proof (rule ccontr)
      assume "\<not> l < ?r"
      then have le: "?r \<le> l" by simp
      with r1 a young have "card_at s ?r = g1_young_card_val (card_table s)" by simp
      with r3[OF le] show False by simp
    qed
  qed
qed

lemma invalidate_empty: "mr_is_empty mr \<Longrightarrow> invalidate thr mr s = s"
  by (simp add: invalidate_def)

lemma filter_needs_dirty_split:
  assumes "clean_card_val (card_table s) \<noteq> g1_young_card_val (card_table s)"
    and "clean_card_val (card_table s) \<noteq> dirty_card_val (card_table s)"
    and "f \<le> mid"
    and "\<forall>c. f \<le> c \<and> c < mid \<longrightarrow> card_at s c = g1_young_card_val (card_table s)"
    and "\<forall>c. mid \<le> c \<and> c \<le> l \<longrightarrow> card_at s c = clean_card_val (card_table s)"
  shows "filter (needs_dirty s) [f..<Suc l] = [mid..<Suc l]"
    and "(f \<le> c \<and> c \<le> l \<and> needs_dirty s c) = (mid \<le> c \<and> c \<le> l)"
proof -
  have nd: "needs_dirty s c \<longleftrightarrow> mid \<le> c" if "f \<le> c" "c \<le> l" for c
    using that assms(1,2,4,5) by (cases "c < mid") (auto simp: needs_dirty_def)
  show "(f \<le> c \<and> c \<le> l \<and> needs_dirty s c) = (mid \<le> c \<and> c \<le> l)"
    using nd[of c] assms(3) by auto
  show "filter (needs_dirty s) [f..<Suc l] = [mid..<Suc l]"
  proof (cases "mid \<le> Suc l")
    case True
    then have "[f..<Suc l] = [f..<mid] @ [mid..<Suc l]"
      using assms(3) by (metis upt_add_eq_append le_Suc_ex)
    moreover have "filter (needs_dirty s) [f..<mid] = []"
      using assms(4) by (intro filter_needs_dirty_young) auto
    moreover have "filter (needs_dirty s) [mid..<Suc l] = [mid..<Suc l]"
      using assms(3) by (intro filter_True) (auto simp: nd)
    ultimately show ?thesis by (simp del: upt_Suc)
  next
    case far: False
    then have "filter (needs_dirty s) [f..<Suc l] = []"
      using assms(4) by (intro filter_needs_dirty_young) auto
    with far show ?thesis by (simp del: upt_Suc)
  qed
qed

text \<open>
  Claim C2. An empty region is a no-op. For a region that is not empty, whose cards from
  \<open>first_card\<close> up to \<open>mid\<close> (exclusive) are young and whose cards from \<open>mid\<close> to
  \<open>last_card\<close> are clean: \<^verbatim>\<open>invalidate\<close> sets exactly the cards from \<open>mid\<close> to \<open>last_card\<close>
  to dirty and leaves every other card as it was; the records held for the dirty card
  buffer of the calling thread (its own queue for a Java thread, the shared queue
  otherwise) are those from before followed by the addresses of the cards from
  \<open>mid\<close> to \<open>last_card\<close>, once each and in order; no other dirty card buffer and nothing
  of the SATB side changes. A Java thread adds no event to the synchronisation trace.
  Another thread, when there is a clean card, adds the taking of
  \<^verbatim>\<open>Shared_DirtyCardQ_lock\<close>, then one enqueue into the shared queue for each card from
  \<open>mid\<close> to \<open>last_card\<close>, then the release of the lock: every record it puts into the
  shared buffer is put there while it holds the lock.
\<close>

theorem invalidate_young_prefix_clean_suffix:
  "(mr_is_empty mr \<longrightarrow> invalidate thr mr s = s) \<and>
   (\<not> mr_is_empty mr \<and>
    clean_card_val (card_table s) \<noteq> g1_young_card_val (card_table s) \<and>
    clean_card_val (card_table s) \<noteq> dirty_card_val (card_table s) \<and>
    first_card s mr \<le> mid \<and>
    (\<forall>c. first_card s mr \<le> c \<and> c < mid \<longrightarrow>
       card_at s c = g1_young_card_val (card_table s)) \<and>
    (\<forall>c. mid \<le> c \<and> c \<le> last_card s mr \<longrightarrow>
       card_at s c = clean_card_val (card_table s))
    \<longrightarrow>
      (\<forall>c. card_at (invalidate thr mr s) c =
         (if mid \<le> c \<and> c \<le> last_card s mr
          then dirty_card_val (card_table s) else card_at s c)) \<and>
      dirty_records (invalidate thr mr s) (queue_of s thr) =
        dirty_records s (queue_of s thr) @ [mid..<Suc (last_card s mr)] \<and>
      (\<forall>b. b \<noteq> queue_of s thr \<longrightarrow>
         dirty_queue (invalidate thr mr s) b = dirty_queue s b) \<and>
      same_but_dirty s (invalidate thr mr s) \<and>
      sync_trace (invalidate thr mr s) =
        sync_trace s @
          (if last_card s mr < mid then []
           else locked_dirty_events s thr [mid..<Suc (last_card s mr)]))"
  (is "?empty \<and> (?hyps \<longrightarrow> ?cards \<and> ?records \<and> ?others \<and> ?frame \<and> ?trace)")
proof (rule conjI)
  show ?empty
    by (simp add: invalidate_empty)
next
  show "?hyps \<longrightarrow> ?cards \<and> ?records \<and> ?others \<and> ?frame \<and> ?trace"
  proof
    assume h: ?hyps
    then have ne: "\<not> mr_is_empty mr" by simp
    note split = filter_needs_dirty_split[of s "first_card s mr" mid "last_card s mr"]
    from h have old: "?cards \<and> ?records \<and> ?others \<and> ?frame"
      using invalidate_char[OF ne, of s thr] split
      by (simp del: upt_Suc)
    from h have "(last_card s mr < skip_young s (first_card s mr) (last_card s mr))
                   = (last_card s mr < mid)"
      by (intro skip_young_prefix) simp_all
    moreover from h have "filter (needs_dirty s) [first_card s mr..<Suc (last_card s mr)]
                            = [mid..<Suc (last_card s mr)]"
      by (intro split(1)) simp_all
    ultimately have ?trace
      using invalidate_trace[OF ne, of thr s] by (simp del: upt_Suc)
    with old show "?cards \<and> ?records \<and> ?others \<and> ?frame \<and> ?trace" by blast
  qed
qed

lemma example_cards:
  "card_at (example_vm dbg act) c = (if c < 2 then 32 else - 1)"
  "g1_young_card_val (card_table (example_vm dbg act)) = 32"
  "dirty_card_val (card_table (example_vm dbg act)) = 0"
  "clean_card_val (card_table (example_vm dbg act)) = - 1"
  "first_card (example_vm dbg act) example_region = 0"
  "last_card (example_vm dbg act) example_region = 3"
  "\<not> mr_is_empty example_region"
  "queue_of (example_vm dbg act) 0 = thread_queue 0"
  "queue_of (example_vm dbg act) (Suc n) = shared_q"
  "dirty_records (example_vm dbg act) b = []"
  "satb_records (example_vm dbg act) b = []"
  "sync_trace (example_vm dbg act) = []"
  "is_Java_thread (threads (example_vm dbg act) t) = (t = 0)"
  by (simp_all add: example_defs card_at_def first_card_def last_card_def example_region_def
      mr_is_empty_def mr_last_def queue_of_def dirty_records_def dirty_queue_def
      satb_records_def satb_queue_def split: queue_id.splits)

theorem invalidate_young_prefix_clean_suffix_witness:
  "card_at (invalidate 0 example_region (example_vm True True)) 0 = 32 \<and>
   card_at (invalidate 0 example_region (example_vm True True)) 1 = 32 \<and>
   card_at (invalidate 0 example_region (example_vm True True)) 2 = 0 \<and>
   card_at (invalidate 0 example_region (example_vm True True)) 3 = 0 \<and>
   card_at (invalidate 0 example_region (example_vm True True)) 4 = - 1 \<and>
   dirty_records (invalidate 0 example_region (example_vm True True)) (thread_queue 0) = [2, 3] \<and>
   sync_trace (invalidate 0 example_region (example_vm True True)) = [] \<and>
   card_at (invalidate 1 example_region (example_vm True True)) 1 = 32 \<and>
   card_at (invalidate 1 example_region (example_vm True True)) 2 = 0 \<and>
   dirty_records (invalidate 1 example_region (example_vm True True)) shared_q = [2, 3] \<and>
   sync_trace (invalidate 1 example_region (example_vm True True)) =
     [mutex_locked Shared_DirtyCardQ_lock,
      shared_dirty_card_enqueued 2, shared_dirty_card_enqueued 3,
      mutex_unlocked Shared_DirtyCardQ_lock] \<and>
   invalidate 0 \<lparr>mr_start = 0, mr_word_size = 0\<rparr> (example_vm True True) = example_vm True True"
proof -
  have "[2..<Suc 3] = [2, 3]" by (simp add: upt_conv_Cons)
  moreover have "mr_is_empty \<lparr>mr_start = 0, mr_word_size = 0\<rparr>"
    by (simp add: mr_is_empty_def)
  ultimately show ?thesis
    using invalidate_young_prefix_clean_suffix[of example_region 0 "example_vm True True" 2]
      invalidate_young_prefix_clean_suffix[of example_region "Suc 0" "example_vm True True" 2]
      invalidate_young_prefix_clean_suffix[of "\<lparr>mr_start = 0, mr_word_size = 0\<rparr>" 0
        "example_vm True True" 0]
    by (simp add: example_cards locked_dirty_events_def)
qed

text \<open>
  Claim C4, as amended. For a card that is young: \<^verbatim>\<open>invalidate\<close>, on any region, leaves
  the card young and enqueues no record for it; the slow path of the post-write barrier
  has no short-circuit for a young card, it asserts that the card is not young, so in a
  build with assertions the call ends in the failed assertion, before any store to the
  card table or to a buffer.
\<close>

theorem young_card_untouched:
  assumes "card_at s c = g1_young_card_val (card_table s)"
  shows "(debug_build s \<longrightarrow>
            write_ref_field_post_slow thr c s
              = Inl (assert_failed ''slow path invoked without filtering'')) \<and>
         card_at (invalidate thr mr s) c = card_at s c \<and>
         (\<exists>new. dirty_records (invalidate thr mr s) (queue_of s thr)
                  = dirty_records s (queue_of s thr) @ new \<and> c \<notin> set new) \<and>
         (\<forall>b. b \<noteq> queue_of s thr \<longrightarrow>
            dirty_queue (invalidate thr mr s) b = dirty_queue s b)"
proof -
  have slow: "debug_build s \<longrightarrow>
      write_ref_field_post_slow thr c s
        = Inl (assert_failed ''slow path invoked without filtering'')"
    using assms by (simp add: write_ref_field_post_slow_def)
  have nd: "\<not> needs_dirty s c"
    using assms by (simp add: needs_dirty_def)
  show ?thesis
  proof (cases "mr_is_empty mr")
    case True
    then have "invalidate thr mr s = s" by (simp add: invalidate_def)
    with slow show ?thesis by simp
  next
    case False
    from invalidate_char[OF False, of s thr] nd
    have "card_at (invalidate thr mr s) c = card_at s c"
      and "dirty_records (invalidate thr mr s) (queue_of s thr)
             = dirty_records s (queue_of s thr)
                 @ filter (needs_dirty s) [first_card s mr..<Suc (last_card s mr)]"
      and "\<forall>b. b \<noteq> queue_of s thr \<longrightarrow>
             dirty_queue (invalidate thr mr s) b = dirty_queue s b"
      by simp_all
    moreover have "c \<notin> set (filter (needs_dirty s) [first_card s mr..<Suc (last_card s mr)])"
      using nd by simp
    ultimately show ?thesis using slow by blast
  qed
qed

theorem young_card_untouched_witness:
  "card_at (example_vm True True) 1 = g1_young_card_val (card_table (example_vm True True)) \<and>
   write_ref_field_post_slow 0 1 (example_vm True True)
     = Inl (assert_failed ''slow path invoked without filtering'') \<and>
   card_at (invalidate 0 example_region (example_vm True True)) 1 = 32"
  using young_card_untouched[of "example_vm True True" 1 0 example_region]
  by (simp add: example_cards) (simp add: example_defs)

text \<open>
  The claim C4 as it was stated fails for the slow path: in a product build, where the
  assertion is compiled out, the slow path called on the young card 1 stores the dirty
  value into it and enqueues its address.
\<close>

theorem young_card_slow_path_counterexample:
  "card_at (example_vm False True) 1 = g1_young_card_val (card_table (example_vm False True)) \<and>
   dirty_records (example_vm False True) (thread_queue 0) = [] \<and>
   \<not> isl (write_ref_field_post_slow 0 1 (example_vm False True)) \<and>
   card_at (projr (write_ref_field_post_slow 0 1 (example_vm False True))) 1
     = dirty_card_val (card_table (example_vm False True)) \<and>
   dirty_card_val (card_table (example_vm False True))
     \<noteq> g1_young_card_val (card_table (example_vm False True)) \<and>
   dirty_records (projr (write_ref_field_post_slow 0 1 (example_vm False True))) (thread_queue 0)
     = [1]"
  by (simp add: write_ref_field_post_slow_def example_defs card_at_def store_card_def
      dirty_card_queue_enqueue_def PtrQueue_enqueue_def dirty_records_def dirty_queue_def Let_def)

subsection \<open>The array pre-write barrier\<close>

lemma write_ref_array_pre_loop_refines:
  "write_ref_array_pre_loop C mem count thr i p s
     = enqueue_slots C mem thr [p..<p + (count - i)] s"
proof (induction C mem count thr i p s rule: write_ref_array_pre_loop.induct)
  case (1 C mem count thr i elem_ptr s)
  show ?case
  proof (cases "i < count")
    case False
    then show ?thesis by (subst write_ref_array_pre_loop.simps) simp
  next
    case True
    then have e: "elem_ptr + (count - i) = Suc elem_ptr + (count - Suc i)" by arith
    have "elem_ptr < elem_ptr + (count - i)" using True by simp
    then have "[elem_ptr..<elem_ptr + (count - i)]
                 = elem_ptr # [Suc elem_ptr..<elem_ptr + (count - i)]"
      by (rule upt_conv_Cons)
    then have upt: "[elem_ptr..<elem_ptr + (count - i)]
                      = elem_ptr # [Suc elem_ptr..<Suc elem_ptr + (count - Suc i)]"
      by (simp only: e)
    obtain v s1 where ld: "oop_load mem elem_ptr s = (v, s1)"
      by (cases "oop_load mem elem_ptr s")
    show ?thesis
    proof (cases "is_null C v")
      case null: True
      from "1.IH"(2)[OF True ld[symmetric]] null
      show ?thesis
        unfolding upt using True ld null
        by (subst write_ref_array_pre_loop.simps) simp
    next
      case nn: False
      show ?thesis
      proof (cases "enqueue thr (decode_not_null C v) s1")
        case (Inl e)
        then show ?thesis
          unfolding upt using True ld nn
          by (subst write_ref_array_pre_loop.simps) simp
      next
        case (Inr s2)
        from "1.IH"(1)[OF True ld[symmetric] _ Inr] nn
        show ?thesis
          unfolding upt using True ld nn Inr
          by (subst write_ref_array_pre_loop.simps) simp
      qed
    qed
  qed
qed

lemma write_ref_array_pre_refines:
  "all_active (satb_mark_queue_set s) \<Longrightarrow>
   write_ref_array_pre C mem thr dst count False s
     = enqueue_slots C mem thr [dst..<dst + count] s"
  by (simp add: write_ref_array_pre_def write_ref_array_pre_work_def
      write_ref_array_pre_loop_refines)

lemma oop_load_state:
  "oop_load mem p s = (v, s1) \<Longrightarrow>
   v = mem p \<and> oop_loads s1 = oop_loads s @ [p] \<and>
   satb_mark_queue_set s1 = satb_mark_queue_set s \<and> threads s1 = threads s \<and>
   dcqs s1 = dcqs s \<and> card_table s1 = card_table s \<and>
   valid_object s1 = valid_object s \<and> debug_build s1 = debug_build s"
  by (auto simp: oop_load_def)

lemma oop_load_obs:
  assumes "oop_load mem p s = (v, s1)"
  shows "satb_queue s1 = satb_queue s" "dirty_queue s1 = dirty_queue s"
    "satb_records s1 = satb_records s" "queue_of s1 = queue_of s"
    "satb_no_null s1 = satb_no_null s" "is_oop s1 = is_oop s"
  using oop_load_state[OF assms]
  by (auto simp: fun_eq_iff satb_queue_def dirty_queue_def satb_records_def queue_of_def
      satb_no_null_def is_oop_def split: queue_id.splits)

lemma queue_of_frame: "same_but_satb s s' \<Longrightarrow> queue_of s' thr = queue_of s thr"
  by (simp add: same_but_satb_def queue_of_def)

lemma is_oop_frame: "same_but_satb s s' \<Longrightarrow> is_oop s' = is_oop s"
  by (simp add: same_but_satb_def is_oop_def fun_eq_iff)

lemma enqueue_Inr_active:
  assumes "enqueue thr r s = Inr s'" and "all_active (satb_mark_queue_set s)"
  shows "satb_records s' (queue_of s thr) = satb_records s (queue_of s thr) @ [r]"
    and "\<forall>b. b \<noteq> queue_of s thr \<longrightarrow> satb_queue s' b = satb_queue s b"
proof -
  have s': "s' = (if is_Java_thread (threads s thr) then satb_mark_queue_enqueue thr r s
                  else locked_shared_satb_queue_enqueue r s)"
    using assms enqueue_checks_oop[OF assms(1)] by (simp add: enqueue_active)
  show "satb_records s' (queue_of s thr) = satb_records s (queue_of s thr) @ [r]"
    and "\<forall>b. b \<noteq> queue_of s thr \<longrightarrow> satb_queue s' b = satb_queue s b"
    unfolding s' queue_of_def
    using satb_mark_queue_enqueue_target[of thr r s]
      locked_shared_satb_queue_enqueue_target[of r s]
    by simp_all
qed

lemma enqueue_no_null:
  assumes "enqueue thr r s = Inr s'" and "satb_no_null s" and "r \<noteq> NULL"
  shows "satb_no_null s'"
  using assms locked_shared_satb_queue_enqueue_no_null[of s r]
  by (auto simp: enqueue_def satb_mark_queue_enqueue_no_null
      locked_shared_satb_queue_enqueue_def split: if_splits)

lemma enqueue_slots_effect:
  assumes "enqueue_slots C mem thr ps s = Inr s'" and "all_active (satb_mark_queue_set s)"
  shows "oop_loads s' = oop_loads s @ ps \<and>
         satb_records s' (queue_of s thr) =
           satb_records s (queue_of s thr)
             @ map (\<lambda>p. decode_not_null C (mem p)) (filter (\<lambda>p. \<not> is_null C (mem p)) ps) \<and>
         (\<forall>b. b \<noteq> queue_of s thr \<longrightarrow> satb_queue s' b = satb_queue s b) \<and>
         dcqs s' = dcqs s \<and> card_table s' = card_table s \<and>
         (\<forall>b. dirty_queue s' b = dirty_queue s b)"
  using assms
proof (induction ps arbitrary: s)
  case Nil
  then show ?case by simp
next
  case (Cons p ps)
  obtain v s1 where ld: "oop_load mem p s = (v, s1)"
    by (cases "oop_load mem p s")
  note st = oop_load_state[OF ld] and ob = oop_load_obs[OF ld]
  have act1: "all_active (satb_mark_queue_set s1)"
    using Cons.prems(2) st by simp
  show ?case
  proof (cases "is_null C v")
    case True
    then have "enqueue_slots C mem thr ps s1 = Inr s'"
      using Cons.prems(1) ld by simp
    from Cons.IH[OF this act1] True show ?thesis
      using st by (simp add: ob)
  next
    case False
    then obtain s2 where eq: "enqueue thr (decode_not_null C v) s1 = Inr s2"
      and rest: "enqueue_slots C mem thr ps s2 = Inr s'"
      using Cons.prems(1) ld by (auto split: sum.splits)
    have fr: "same_but_satb s1 s2" by (rule enqueue_frame[OF eq])
    have act2: "all_active (satb_mark_queue_set s2)"
      using fr act1 by (simp add: same_but_satb_def)
    have q2: "queue_of s2 thr = queue_of s thr"
      using queue_of_frame[OF fr] ob(4) by simp
    note e = enqueue_Inr_active[OF eq act1]
    from Cons.IH[OF rest act2] False show ?thesis
      using st fr e by (simp add: ob q2 same_but_satb_def)
  qed
qed

lemma enqueue_slots_no_null:
  assumes "enqueue_slots C mem thr ps s = Inr s'" and "satb_no_null s"
    and "\<forall>v. \<not> is_null C v \<longrightarrow> decode_not_null C v \<noteq> NULL"
  shows "satb_no_null s'"
  using assms(1,2)
proof (induction ps arbitrary: s)
  case Nil
  then show ?case by simp
next
  case (Cons p ps)
  obtain v s1 where ld: "oop_load mem p s = (v, s1)"
    by (cases "oop_load mem p s")
  have nn1: "satb_no_null s1"
    using Cons.prems(2) oop_load_obs(5)[OF ld] by simp
  show ?case
  proof (cases "is_null C v")
    case True
    then have "enqueue_slots C mem thr ps s1 = Inr s'"
      using Cons.prems(1) ld by simp
    from Cons.IH[OF this nn1] show ?thesis .
  next
    case False
    then obtain s2 where eq: "enqueue thr (decode_not_null C v) s1 = Inr s2"
      and rest: "enqueue_slots C mem thr ps s2 = Inr s'"
      using Cons.prems(1) ld by (auto split: sum.splits)
    have "decode_not_null C v \<noteq> NULL" using False assms(3) by simp
    from Cons.IH[OF rest enqueue_no_null[OF eq nn1 this]] show ?thesis .
  qed
qed

lemma enqueue_slots_returns:
  assumes "\<forall>p \<in> set ps. \<not> is_null C (mem p) \<longrightarrow> is_oop s (decode_not_null C (mem p))"
  shows "\<exists>s'. enqueue_slots C mem thr ps s = Inr s'"
  using assms
proof (induction ps arbitrary: s)
  case Nil
  then show ?case by simp
next
  case (Cons p ps)
  obtain v s1 where ld: "oop_load mem p s = (v, s1)"
    by (cases "oop_load mem p s")
  note st = oop_load_state[OF ld] and ob = oop_load_obs[OF ld]
  show ?case
  proof (cases "is_null C v")
    case True
    have "\<exists>s'. enqueue_slots C mem thr ps s1 = Inr s'"
      using Cons.prems by (intro Cons.IH) (simp add: ob)
    with True ld show ?thesis by simp
  next
    case False
    have ok: "is_oop s1 (decode_not_null C v)"
      using Cons.prems False st by (simp add: ob)
    then obtain s2 where eq: "enqueue thr (decode_not_null C v) s1 = Inr s2"
      by (cases "all_active (satb_mark_queue_set s1)")
        (simp_all add: enqueue_active enqueue_inactive)
    have "is_oop s2 = is_oop s"
      using is_oop_frame[OF enqueue_frame[OF eq]] ob by simp
    then have "\<exists>s'. enqueue_slots C mem thr ps s2 = Inr s'"
      using Cons.prems by (intro Cons.IH) simp
    with False ld eq show ?thesis by simp
  qed
qed

text \<open>
  Claim C5, as amended. With \<^verbatim>\<open>dest_uninitialized\<close> false and the SATB queue set
  active, the array pre-write barrier does what the specification's loop does: for each
  of the \<open>count\<close> slots from \<open>dst\<close>, in order, it reads the slot and, when the value is
  not null, decodes it and calls \<^verbatim>\<open>enqueue\<close> on the decoded reference. When the call
  returns, every one of the slots has been read, once and in order, and the records
  held for the SATB buffer of the calling thread are those from before followed by
  the decoded non-null slot values, in slot order; null slots add nothing, and no other
  SATB buffer changes. The call returns when every non-null slot decodes to a valid
  object (otherwise a build with assertions stops in \<^verbatim>\<open>enqueue\<close>).
\<close>

theorem write_ref_array_pre_active:
  assumes "all_active (satb_mark_queue_set s)"
  shows "write_ref_array_pre C mem thr dst count False s
           = enqueue_slots C mem thr [dst..<dst + count] s \<and>
         (\<forall>s'. write_ref_array_pre C mem thr dst count False s = Inr s' \<longrightarrow>
            oop_loads s' = oop_loads s @ [dst..<dst + count] \<and>
            satb_records s' (queue_of s thr) =
              satb_records s (queue_of s thr)
                @ map (\<lambda>p. decode_not_null C (mem p))
                    (filter (\<lambda>p. \<not> is_null C (mem p)) [dst..<dst + count]) \<and>
            (\<forall>b. b \<noteq> queue_of s thr \<longrightarrow> satb_queue s' b = satb_queue s b)) \<and>
         ((\<forall>p \<in> set [dst..<dst + count].
              \<not> is_null C (mem p) \<longrightarrow> is_oop s (decode_not_null C (mem p))) \<longrightarrow>
          (\<exists>s'. write_ref_array_pre C mem thr dst count False s = Inr s'))"
  unfolding write_ref_array_pre_refines[OF assms]
  using enqueue_slots_effect[OF _ assms, of C mem thr "[dst..<dst + count]"]
    enqueue_slots_returns[of "[dst..<dst + count]" C mem s thr]
  by blast

lemma example_oops:
  "is_oop (example_vm dbg act) r = (0 < r)"
  "all_active (satb_mark_queue_set (example_vm dbg act)) = act"
  "oop_loads (example_vm dbg act) = []"
  "is_null oop_CompressedOops v = (v = 0)"
  "decode_not_null oop_CompressedOops v = v"
  "satb_no_null (example_vm dbg act)"
  by (auto simp: example_defs is_oop_def NULL_def oop_CompressedOops_def satb_no_null_def
      satb_queue_def split: queue_id.splits)

theorem write_ref_array_pre_active_witness:
  "all_active (satb_mark_queue_set (example_vm True True)) \<and>
   (\<exists>s'. write_ref_array_pre oop_CompressedOops example_slots 0 5 3 False (example_vm True True)
            = Inr s' \<and>
      oop_loads s' = [5, 6, 7] \<and> satb_records s' (thread_queue 0) = [15, 17])"
proof -
  let ?s = "example_vm True True"
  let ?run = "write_ref_array_pre oop_CompressedOops example_slots 0 5 3 False ?s"
  have act: "all_active (satb_mark_queue_set ?s)" by (simp add: example_oops)
  have upt: "[5..<5 + 3] = [5, 6, 7]" by (simp add: upt_conv_Cons)
  note t = write_ref_array_pre_active[OF act, of oop_CompressedOops example_slots 0 5 3,
      THEN conjunct2]
  have "\<forall>p \<in> set [5..<5 + 3]. \<not> is_null oop_CompressedOops (example_slots p) \<longrightarrow>
          is_oop ?s (decode_not_null oop_CompressedOops (example_slots p))"
    by (simp add: example_oops example_slots_def NULL_def)
  with t obtain s' where r: "?run = Inr s'" by blast
  with t have "oop_loads s' = oop_loads ?s @ [5..<5 + 3]"
    and "satb_records s' (queue_of ?s 0) =
           satb_records ?s (queue_of ?s 0)
             @ map (\<lambda>p. decode_not_null oop_CompressedOops (example_slots p))
                 (filter (\<lambda>p. \<not> is_null oop_CompressedOops (example_slots p)) [5..<5 + 3])"
    by blast+
  then have "oop_loads s' = [5, 6, 7]" and "satb_records s' (thread_queue 0) = [15, 17]"
    unfolding upt by (simp_all add: example_oops example_cards example_slots_def NULL_def)
  with r act show ?thesis by blast
qed

text \<open>
  The claim C5 as it was stated, for every call with \<^verbatim>\<open>dest_uninitialized\<close> false,
  fails when the SATB queue set is inactive: slot 5 holds a non-null reference, and the
  barrier returns without reading it, whereas the loop of the specification reads it.
\<close>

theorem write_ref_array_pre_reads_counterexample:
  "\<not> is_null oop_CompressedOops (example_slots 5) \<and>
   write_ref_array_pre oop_CompressedOops example_slots 0 5 1 False (example_vm True False)
     = Inr (example_vm True False) \<and>
   oop_loads (example_vm True False) = [] \<and>
   enqueue_slots oop_CompressedOops example_slots 0 [5] (example_vm True False)
     = Inr ((example_vm True False)\<lparr>oop_loads := [5]\<rparr>)"
  by (simp add: write_ref_array_pre_def write_ref_array_pre_work_def example_oops
      example_slots_def NULL_def oop_load_def enqueue_def is_oop_def)
    (simp add: example_defs)

subsection \<open>The invariant of the SATB buffers\<close>

lemma on_thread_attach_no_null:
  "on_thread_attach thread s = Inr s' \<Longrightarrow> satb_no_null s \<Longrightarrow> satb_no_null s'"
  by (auto simp: on_thread_attach_def satb_no_null_def satb_queue_def set_active_def
      split: if_splits queue_id.splits)

lemma satb_mark_queue_flush_no_null:
  assumes "satb_no_null s"
  shows "satb_no_null (satb_mark_queue_flush thread s)"
proof -
  let ?p = "PtrQueue_flush (satb_mark_queue (threads s thread), satb_mark_queue_set s)"
  have old: "NULL \<notin> set (buf (satb_mark_queue (threads s t)))"
    "NULL \<notin> set (buf (shared_queue (satb_mark_queue_set s)))"
    "\<And>cb. cb \<in> set (completed_buffers (satb_mark_queue_set s)) \<Longrightarrow> NULL \<notin> set cb" for t
    using assms unfolding satb_no_null_def satb_queue_def
    by (auto split: queue_id.splits)
  have c: "cb \<in> set (completed_buffers (snd ?p)) \<Longrightarrow> NULL \<notin> set cb" for cb
    using PtrQueue_flush_props(7)[of "satb_mark_queue (threads s thread)" "satb_mark_queue_set s"]
      old(1)[of thread] old(3) by auto
  show ?thesis
    unfolding satb_no_null_def satb_queue_def
    using c old
    by (auto simp: satb_mark_queue_flush_def Let_def split_beta PtrQueue_flush_props(1-6)
        split: queue_id.splits)
qed

lemma dirty_card_queue_flush_frame: "same_but_dirty s (dirty_card_queue_flush thread s)"
  by (simp add: same_but_dirty_def dirty_card_queue_flush_def Let_def split_beta satb_queue_def
      PtrQueue_flush_props(1-6) split: queue_id.splits)

lemma on_thread_detach_no_null:
  "satb_no_null s \<Longrightarrow> satb_no_null (on_thread_detach thread s)"
  by (simp add: on_thread_detach_def CardTableBarrierSet_on_thread_detach_def
      same_but_dirty_no_null[OF dirty_card_queue_flush_frame] satb_mark_queue_flush_no_null)

lemma write_ref_field_post_slow_frame:
  assumes "write_ref_field_post_slow thr byte s = Inr s'"
  shows "same_but_dirty s s'"
proof (cases "card_at s byte = dirty_card_val (card_table s)")
  case True
  with assms have "s' = s"
    by (simp add: write_ref_field_post_slow_def split: if_splits)
  then show ?thesis by (simp add: same_but_dirty_refl)
next
  case False
  with assms have "debug_build s \<longrightarrow> card_at s byte \<noteq> g1_young_card_val (card_table s)"
    by (auto simp: write_ref_field_post_slow_def split: if_splits)
  from write_ref_field_post_slow_not_dirty[OF this False, of thr] assms dirtied_state(1)
  show ?thesis by auto
qed

lemma invalidate_frame: "same_but_dirty s (invalidate thr mr s)"
  using invalidate_char[of mr s thr] invalidate_empty[of mr thr s]
  by (cases "mr_is_empty mr") (simp_all add: same_but_dirty_refl)

lemma write_ref_array_pre_no_null:
  assumes "write_ref_array_pre C mem thr dst count uninit s = Inr s'" and "satb_no_null s"
    and "\<forall>v. \<not> is_null C v \<longrightarrow> decode_not_null C v \<noteq> NULL"
  shows "satb_no_null s'"
proof (cases "uninit \<or> \<not> all_active (satb_mark_queue_set s)")
  case True
  then have "s' = s"
    using assms(1)
    by (auto simp: write_ref_array_pre_def write_ref_array_pre_work_def split: if_splits)
  with assms(2) show ?thesis by simp
next
  case False
  then have "enqueue_slots C mem thr [dst..<dst + count] s = Inr s'"
    using assms(1) write_ref_array_pre_refines[of s C mem thr dst count] by simp
  from enqueue_slots_no_null[OF this assms(2,3)] show ?thesis .
qed

text \<open>
  Claim C9. From a state in which no SATB buffer (of a thread, shared or completed)
  holds \<^verbatim>\<open>NULL\<close>, every operation of the barrier set that returns leaves such a state:
  \<^verbatim>\<open>enqueue\<close> under its precondition that the reference is not null; the array
  pre-write barrier, which enqueues only the decoding of slot values it found non-null
  (the decoding of a non-null value is not \<^verbatim>\<open>NULL\<close>); the post-write slow path,
  \<^verbatim>\<open>invalidate\<close>, \<^verbatim>\<open>on_thread_attach\<close> and \<^verbatim>\<open>on_thread_detach\<close>.
\<close>

theorem satb_no_null_preserved:
  assumes "satb_no_null s"
  shows "(r \<noteq> NULL \<longrightarrow> (\<forall>s'. enqueue thr r s = Inr s' \<longrightarrow> satb_no_null s')) \<and>
         ((\<forall>v. \<not> is_null C v \<longrightarrow> decode_not_null C v \<noteq> NULL) \<longrightarrow>
          (\<forall>s'. write_ref_array_pre C mem thr dst count uninit s = Inr s' \<longrightarrow> satb_no_null s')) \<and>
         (\<forall>s'. write_ref_field_post_slow thr byte s = Inr s' \<longrightarrow> satb_no_null s') \<and>
         satb_no_null (invalidate thr mr s) \<and>
         (\<forall>s'. on_thread_attach thread s = Inr s' \<longrightarrow> satb_no_null s') \<and>
         satb_no_null (on_thread_detach thread s)"
proof (intro conjI impI allI)
  fix s' assume "r \<noteq> NULL" "enqueue thr r s = Inr s'"
  then show "satb_no_null s'" using assms by (blast intro: enqueue_no_null)
next
  fix s' assume "\<forall>v. \<not> is_null C v \<longrightarrow> decode_not_null C v \<noteq> NULL"
    "write_ref_array_pre C mem thr dst count uninit s = Inr s'"
  then show "satb_no_null s'" using assms by (blast intro: write_ref_array_pre_no_null)
next
  fix s' assume "write_ref_field_post_slow thr byte s = Inr s'"
  from same_but_dirty_no_null[OF write_ref_field_post_slow_frame[OF this]] assms
  show "satb_no_null s'" by simp
next
  show "satb_no_null (invalidate thr mr s)"
    using same_but_dirty_no_null[OF invalidate_frame] assms by simp
next
  fix s' assume "on_thread_attach thread s = Inr s'"
  then show "satb_no_null s'" using assms by (rule on_thread_attach_no_null)
next
  show "satb_no_null (on_thread_detach thread s)"
    using assms by (rule on_thread_detach_no_null)
qed

theorem satb_no_null_preserved_witness:
  "satb_no_null (example_vm True True) \<and>
   7 \<noteq> NULL \<and> \<not> isl (enqueue 0 7 (example_vm True True)) \<and>
   satb_no_null (projr (enqueue 0 7 (example_vm True True))) \<and>
   \<not> isl (write_ref_array_pre oop_CompressedOops example_slots 0 5 3 False
            (example_vm True True)) \<and>
   satb_no_null (projr (write_ref_array_pre oop_CompressedOops example_slots 0 5 3 False
                          (example_vm True True))) \<and>
   satb_no_null (invalidate 0 example_region (example_vm True True)) \<and>
   satb_no_null (on_thread_detach 0 (example_vm True True))"
proof -
  let ?s = "example_vm True True"
  note t = satb_no_null_preserved[OF example_oops(6)[of True True], of 7 0 oop_CompressedOops
      example_slots 5 3 False 5 example_region 0]
  obtain s1 where e: "enqueue 0 7 ?s = Inr s1"
    by (simp add: enqueue_active example_oops)
  have "\<forall>p \<in> set [5..<5 + 3]. \<not> is_null oop_CompressedOops (example_slots p) \<longrightarrow>
          is_oop ?s (decode_not_null oop_CompressedOops (example_slots p))"
    by (simp add: example_oops example_slots_def NULL_def)
  from enqueue_slots_returns[OF this]
  obtain s2 where a: "write_ref_array_pre oop_CompressedOops example_slots 0 5 3 False ?s = Inr s2"
    by (auto simp: write_ref_array_pre_refines example_oops)
  show ?thesis
    using t e a by (simp add: example_oops NULL_def)
qed

end
